theory Spec2Isabelle
  imports Complex_Main
begin

section \<open>Time units\<close>

text \<open>
  \<^verbatim>\<open>get_units_from_milliseconds\<close> splits a millisecond count with three \<^verbatim>\<open>divmod\<close>
  calls. Python's \<^verbatim>\<open>divmod\<close> on integers is floor division with a remainder that has
  the divisor's sign, which is what \<open>div\<close> and \<open>mod\<close> are on \<open>int\<close>.
\<close>

definition get_units_from_milliseconds :: "int \<Rightarrow> int \<times> int \<times> int \<times> int" where
  "get_units_from_milliseconds milliseconds =
     (let secs = milliseconds div 1000; millis = milliseconds mod 1000;
          mins = secs div 60; secs' = secs mod 60;
          hours = mins div 60; mins' = mins mod 60
      in (hours, mins', secs', millis))"

definition get_units_from_seconds :: "int \<Rightarrow> int \<times> int \<times> int \<times> int" where
  "get_units_from_seconds seconds = get_units_from_milliseconds (seconds * 1000)"

section \<open>Python strings and integers\<close>

text \<open>
  Strings are lists of characters. Python integers are unbounded and are modelled as
  \<open>int\<close>; the conversions \<^verbatim>\<open>str\<close> and \<^verbatim>\<open>int\<close> and the string operations
  \<^verbatim>\<open>rjust\<close> and slicing are written out. Strings of every length are taken to be
  constructible, so the limits of an interpreter (memory, the size of a padding width,
  the length of a digit string given to \<^verbatim>\<open>int\<close>) are outside the model.
\<close>

definition is_digit :: "char \<Rightarrow> bool" where
  "is_digit c = (c \<in> set ''0123456789'')"

definition digit_val :: "char \<Rightarrow> nat" where
  "digit_val c = of_char c - 48"

definition digit_char :: "nat \<Rightarrow> char" where
  "digit_char n = ''0123456789'' ! n"

fun str_nat :: "nat \<Rightarrow> string" where
  "str_nat n = (if n < 10 then [digit_char n] else str_nat (n div 10) @ [digit_char (n mod 10)])"

declare str_nat.simps [simp del]

definition str_int :: "int \<Rightarrow> string" where
  \<comment> \<open>\<^verbatim>\<open>str(i)\<close>\<close>
  "str_int i = (if i < 0 then CHR ''-'' # str_nat (nat (- i)) else str_nat (nat i))"

definition int_of_digits :: "string \<Rightarrow> int" where
  "int_of_digits ds = foldl (\<lambda>a c. 10 * a + int (digit_val c)) 0 ds"

definition py_int :: "string \<Rightarrow> int" where
  \<comment> \<open>\<^verbatim>\<open>int(s)\<close> on a text matched by \<^verbatim>\<open>-?\d+\<close>\<close>
  "py_int s = (case s of [] \<Rightarrow> 0
               | c # cs \<Rightarrow> if c = CHR ''-'' then - int_of_digits cs else int_of_digits s)"

definition rjust :: "int \<Rightarrow> char \<Rightarrow> string \<Rightarrow> string" where
  \<comment> \<open>\<^verbatim>\<open>s.rjust(width, fill)\<close>: nothing is added when the string is already long enough\<close>
  "rjust width fill s = replicate (nat (width - int (length s))) fill @ s"

definition slice_index :: "int \<Rightarrow> nat \<Rightarrow> nat" where
  \<comment> \<open>a slice bound: a negative bound counts from the end and stops at the start\<close>
  "slice_index i n = (if i < 0 then nat (int n + i) else nat i)"

definition slice_from :: "int \<Rightarrow> string \<Rightarrow> string" where
  \<comment> \<open>\<^verbatim>\<open>s[i:]\<close>\<close>
  "slice_from i s = drop (slice_index i (length s)) s"

definition slice_to :: "int \<Rightarrow> string \<Rightarrow> string" where
  \<comment> \<open>\<^verbatim>\<open>s[:i]\<close>\<close>
  "slice_to i s = take (slice_index i (length s)) s"

datatype error = ValueError string | TypeError string | ZeroDivisionError | OverflowError string

section \<open>The directive pattern\<close>

text \<open>
  The compiled pattern of \<^verbatim>\<open>format_time\<close> is
  \<^verbatim>\<open>%(?P<spec>(?P<digits>-?\d+)?(?P<unit>[HMSm])|%)\<close>.
  A match is either the escape (group \<^verbatim>\<open>spec\<close> is \<^verbatim>\<open>%\<close>) or a directive with its
  optional \<^verbatim>\<open>digits\<close> text and its \<^verbatim>\<open>unit\<close>.
\<close>

datatype time_unit = Hours | Minutes | Seconds | Millis

definition unit_of_char :: "char \<Rightarrow> time_unit option" where
  "unit_of_char c =
     (if c = CHR ''H'' then Some Hours else if c = CHR ''M'' then Some Minutes
      else if c = CHR ''S'' then Some Seconds else if c = CHR ''m'' then Some Millis
      else None)"

datatype rx_match = Percent | Spec "string option" time_unit

definition match_digits :: "string \<Rightarrow> (string \<times> string) option" where
  \<comment> \<open>\<^verbatim>\<open>-?\d+\<close>, greedy, at the start of the text: the matched text and what follows it\<close>
  "match_digits s =
     (let (sign, body) = (case s of [] \<Rightarrow> ([], s)
                          | c # cs \<Rightarrow> if c = CHR ''-'' then ([c], cs) else ([], s));
          ds = takeWhile is_digit body
      in if ds = [] then None else Some (sign @ ds, dropWhile is_digit body))"

definition match_unit :: "string \<Rightarrow> (time_unit \<times> string) option" where
  \<comment> \<open>\<^verbatim>\<open>[HMSm]\<close> at the start of the text\<close>
  "match_unit s = (case s of [] \<Rightarrow> None
                   | c # cs \<Rightarrow> (case unit_of_char c of None \<Rightarrow> None | Some u \<Rightarrow> Some (u, cs)))"

definition rx_match_at :: "string \<Rightarrow> (rx_match \<times> string) option" where
  \<comment> \<open>The pattern matched at the start of the text. The alternatives are tried in the
      pattern's order: digits and unit, the unit alone, the second \<^verbatim>\<open>%\<close>. Giving back
      digits from \<^verbatim>\<open>-?\d+\<close> never helps, since a digit then stands where the unit must.\<close>
  "rx_match_at s =
     (case s of [] \<Rightarrow> None
      | c # r \<Rightarrow>
          if c \<noteq> CHR ''%'' then None
          else (case (case match_digits r of None \<Rightarrow> None
                      | Some (ds, r1) \<Rightarrow>
                          (case match_unit r1 of None \<Rightarrow> None
                           | Some (u, r2) \<Rightarrow> Some (Spec (Some ds) u, r2))) of
                  Some m \<Rightarrow> Some m
                | None \<Rightarrow>
                    (case match_unit r of Some (u, r2) \<Rightarrow> Some (Spec None u, r2)
                     | None \<Rightarrow>
                         (case r of [] \<Rightarrow> None
                          | c' # r2 \<Rightarrow> if c' = CHR ''%'' then Some (Percent, r2) else None))))"

lemma match_digits_length: "match_digits s = Some (ds, r) \<Longrightarrow> length r \<le> length s"
  by (auto simp: match_digits_def Let_def length_dropWhile_le le_SucI
      split: list.splits if_splits)

lemma match_unit_length: "match_unit s = Some (u, r) \<Longrightarrow> length r < length s"
  by (auto simp: match_unit_def split: list.splits option.splits)

lemma rx_match_at_length: "rx_match_at s = Some (m, r) \<Longrightarrow> length r < length s"
  unfolding rx_match_at_def
  by (auto split: list.splits if_splits option.splits
      dest!: match_digits_length match_unit_length)

text \<open>
  \<^verbatim>\<open>rx.sub(repl, fmt)\<close> scans the text from the left. Where the pattern matches, the match
  is handed to \<open>repl\<close> and the scan goes on after the match; elsewhere the character is
  copied. An exception raised by \<open>repl\<close> ends the scan.
\<close>

function rx_sub :: "(rx_match \<Rightarrow> error + string) \<Rightarrow> string \<Rightarrow> error + string" where
  "rx_sub repl [] = Inr []"
| "rx_sub repl (c # cs) =
     (case rx_match_at (c # cs) of
        None \<Rightarrow> (case rx_sub repl cs of Inl e \<Rightarrow> Inl e | Inr out \<Rightarrow> Inr (c # out))
      | Some (m, rest) \<Rightarrow>
          (case repl m of Inl e \<Rightarrow> Inl e
           | Inr text \<Rightarrow> (case rx_sub repl rest of Inl e \<Rightarrow> Inl e | Inr out \<Rightarrow> Inr (text @ out))))"
  by pat_completeness auto
termination
  by (relation "measure (\<lambda>(repl, s). length s)") (auto dest: rx_match_at_length)

section \<open>The replacement of one match\<close>

definition default_digs :: "time_unit \<Rightarrow> int" where
  "default_digs u = (case u of Hours \<Rightarrow> - 2 | Minutes \<Rightarrow> - 2 | Seconds \<Rightarrow> - 2 | Millis \<Rightarrow> 3)"

definition stored_width :: "string option \<Rightarrow> time_unit \<Rightarrow> int" where
  \<comment> \<open>the value of \<^verbatim>\<open>dig\<close> after the \<^verbatim>\<open>if dig is None\<close> statement\<close>
  "stored_width digits u = (case digits of None \<Rightarrow> default_digs u | Some d \<Rightarrow> - py_int d)"

definition unit_value :: "int \<times> int \<times> int \<times> int \<Rightarrow> time_unit \<Rightarrow> int" where
  "unit_value units u =
     (case units of (hr, mn, sec, ms) \<Rightarrow>
        (case u of Hours \<Rightarrow> hr | Minutes \<Rightarrow> mn | Seconds \<Rightarrow> sec | Millis \<Rightarrow> ms))"

definition padded :: "int \<times> int \<times> int \<times> int \<Rightarrow> time_unit \<Rightarrow> int \<Rightarrow> string" where
  \<comment> \<open>the string that is sliced: \<^verbatim>\<open>str(value).rjust(max(abs(dig), default_digs[u]), "0")\<close>\<close>
  "padded units u dig = rjust (max \<bar>dig\<bar> (default_digs u)) CHR ''0'' (str_int (unit_value units u))"

definition directive_text :: "int \<times> int \<times> int \<times> int \<Rightarrow> time_unit \<Rightarrow> int \<Rightarrow> string" where
  "directive_text units u dig =
     (if dig < 0 then slice_from dig (padded units u dig) else slice_to dig (padded units u dig))"

definition replacer :: "int \<times> int \<times> int \<times> int \<Rightarrow> rx_match \<Rightarrow> error + string" where
  "replacer units ma =
     (case ma of
        Percent \<Rightarrow> Inr ''%%''
      | Spec digits u \<Rightarrow>
          (let dig = stored_width digits u
           in if dig = 0 then Inl (ValueError ''width cannot be 0'')
              else Inr (directive_text units u dig)))"

section \<open>The final formatting step\<close>

text \<open>
  The substituted text is formatted with an empty tuple, \<^verbatim>\<open>text % ()\<close>. A \<^verbatim>\<open>%\<close> that
  directly follows a \<^verbatim>\<open>%\<close> writes one \<^verbatim>\<open>%\<close> and takes no argument. After any other
  character Python reads a conversion specifier: flags, a width, a precision, a length
  modifier, and the conversion character. Every conversion character, \<^verbatim>\<open>%\<close> too, and
  \<^verbatim>\<open>*\<close> as width or precision, asks for an argument, of which there is none; a key in
  parentheses asks for a mapping. The reader is modelled character by character, with
  the limits of a 64-bit interpreter on the width and the precision.
\<close>

datatype fmt_state = Text | First | Flags | Width int | PrecStart | Prec int | Conv

definition is_flag :: "char \<Rightarrow> bool" where
  "is_flag c = (c \<in> set ''-+ #0'')"

definition not_enough :: error where
  "not_enough = TypeError ''not enough arguments for format string''"

definition PY_SSIZE_T_MAX :: int where
  "PY_SSIZE_T_MAX = 2 ^ 63 - 1"

definition INT_MAX :: int where
  "INT_MAX = 2 ^ 31 - 1"

definition conv_step :: "char \<Rightarrow> error + fmt_state \<times> string" where
  \<comment> \<open>the conversion character of a specifier: the next argument is fetched before the
      character is looked at\<close>
  "conv_step c = Inl not_enough"

definition lenmod_step :: "char \<Rightarrow> error + fmt_state \<times> string" where
  "lenmod_step c = (if c \<in> set ''hlL'' then Inr (Conv, []) else conv_step c)"

definition prec_step :: "int \<Rightarrow> char \<Rightarrow> error + fmt_state \<times> string" where
  "prec_step p c =
     (if is_digit c
      then if p > (INT_MAX - int (digit_val c)) div 10 then Inl (ValueError ''precision too big'')
           else Inr (Prec (p * 10 + int (digit_val c)), [])
      else lenmod_step c)"

definition precstart_step :: "char \<Rightarrow> error + fmt_state \<times> string" where
  "precstart_step c =
     (if c = CHR ''*'' then Inl not_enough
      else if is_digit c then Inr (Prec (int (digit_val c)), [])
      else lenmod_step c)"

definition afterwidth_step :: "char \<Rightarrow> error + fmt_state \<times> string" where
  "afterwidth_step c = (if c = CHR ''.'' then Inr (PrecStart, []) else lenmod_step c)"

definition width_step :: "int \<Rightarrow> char \<Rightarrow> error + fmt_state \<times> string" where
  "width_step w c =
     (if is_digit c
      then if w > (PY_SSIZE_T_MAX - int (digit_val c)) div 10 then Inl (ValueError ''width too big'')
           else Inr (Width (w * 10 + int (digit_val c)), [])
      else afterwidth_step c)"

definition flags_step :: "char \<Rightarrow> error + fmt_state \<times> string" where
  "flags_step c =
     (if is_flag c then Inr (Flags, [])
      else if c = CHR ''*'' then Inl not_enough
      else if is_digit c then Inr (Width (int (digit_val c)), [])
      else afterwidth_step c)"

definition first_step :: "char \<Rightarrow> error + fmt_state \<times> string" where
  "first_step c =
     (if c = CHR ''%'' then Inr (Text, ''%'')
      else if c = CHR ''('' then Inl (TypeError ''format requires a mapping'')
      else flags_step c)"

definition fmt_step :: "fmt_state \<Rightarrow> char \<Rightarrow> error + fmt_state \<times> string" where
  \<comment> \<open>one character read in a state: the next state and the text written\<close>
  "fmt_step st c =
     (case st of
        Text \<Rightarrow> if c = CHR ''%'' then Inr (First, []) else Inr (Text, [c])
      | First \<Rightarrow> first_step c
      | Flags \<Rightarrow> flags_step c
      | Width w \<Rightarrow> width_step w c
      | PrecStart \<Rightarrow> precstart_step c
      | Prec p \<Rightarrow> prec_step p c
      | Conv \<Rightarrow> conv_step c)"

fun fmt_run :: "fmt_state \<Rightarrow> string \<Rightarrow> error + string" where
  "fmt_run st [] = (if st = Text then Inr [] else Inl (ValueError ''incomplete format''))"
| "fmt_run st (c # cs) =
     (case fmt_step st c of
        Inl e \<Rightarrow> Inl e
      | Inr (st', text) \<Rightarrow>
          (case fmt_run st' cs of Inl e \<Rightarrow> Inl e | Inr out \<Rightarrow> Inr (text @ out)))"

definition format_no_args :: "string \<Rightarrow> error + string" where
  \<comment> \<open>\<^verbatim>\<open>s % ()\<close>\<close>
  "format_no_args s = fmt_run Text s"

section \<open>Rendering a label\<close>

definition format_time :: "int \<Rightarrow> string \<Rightarrow> error + string" where
  "format_time millis fmt =
     (case rx_sub (replacer (get_units_from_milliseconds millis)) fmt of
        Inl e \<Rightarrow> Inl e
      | Inr text \<Rightarrow> format_no_args text)"

section \<open>The matches of a pattern\<close>

text \<open>
  The scan of \<^verbatim>\<open>rx.sub\<close> splits a pattern into the matches it hands to the replacement
  function and the characters it copies. \<open>scan\<close> lists them in order, and \<open>sub_tokens\<close>
  is the substitution over that list; \<open>rx_sub_scan\<close> below shows that it is \<open>rx_sub\<close>.
\<close>

datatype token = Lit char | Match rx_match

function scan :: "string \<Rightarrow> token list" where
  "scan [] = []"
| "scan (c # cs) =
     (case rx_match_at (c # cs) of
        None \<Rightarrow> Lit c # scan cs
      | Some (m, rest) \<Rightarrow> Match m # scan rest)"
  by pat_completeness auto
termination
  by (relation "measure length") (auto dest: rx_match_at_length)

fun sub_tokens :: "(rx_match \<Rightarrow> error + string) \<Rightarrow> token list \<Rightarrow> error + string" where
  "sub_tokens repl [] = Inr []"
| "sub_tokens repl (Lit c # ts) =
     (case sub_tokens repl ts of Inl e \<Rightarrow> Inl e | Inr out \<Rightarrow> Inr (c # out))"
| "sub_tokens repl (Match m # ts) =
     (case repl m of Inl e \<Rightarrow> Inl e
      | Inr text \<Rightarrow> (case sub_tokens repl ts of Inl e \<Rightarrow> Inl e | Inr out \<Rightarrow> Inr (text @ out)))"

definition zero_width :: "token \<Rightarrow> bool" where
  "zero_width tok =
     (case tok of Lit c \<Rightarrow> False | Match Percent \<Rightarrow> False
      | Match (Spec digits u) \<Rightarrow> stored_width digits u = 0)"

section \<open>Texts that differ in their digits\<close>

text \<open>
  Two labels of one pattern are formatted from texts that agree except where digits
  stand. \<open>sim\<close> relates the characters of two such texts, and \<open>kind\<close> groups the states
  of the format reader that such texts can lead to at the same position.
\<close>

definition sim :: "char \<Rightarrow> char \<Rightarrow> bool" where
  "sim c d = (c = d \<or> (is_digit c \<and> is_digit d))"

fun kind :: "fmt_state \<Rightarrow> nat" where
  "kind Text = 0"
| "kind First = 1"
| "kind Flags = 2"
| "kind (Width w) = 2"
| "kind PrecStart = 3"
| "kind (Prec p) = 4"
| "kind Conv = 5"

section \<open>Durations\<close>

text \<open>
  The duration is a Python float: a finite float, which is a rational number, or one of
  the infinities, or the value that is not a number; the command line accepts them all.
  On finite floats the conversion \<^verbatim>\<open>int(x)\<close> and the remainder of a non-negative float
  are exact. A sum or a product is rounded to the nearest float, to the one with the
  even significand when two are equally near: \<open>fl\<close> rounds to 53 significant bits, with
  the exponent of the result between \<open>- 1022\<close> and 1023. An int that is an operand of a
  float operation is converted to a float first; an int that would round to \<open>2 ^ 1024\<close> or
  beyond has none, and the conversion raises \<^verbatim>\<open>OverflowError\<close>.
\<close>

datatype pyfloat = Finite rat | PosInf | NegInf | NaN

fun exponent_from :: "nat \<Rightarrow> int \<Rightarrow> rat \<Rightarrow> int" where
  "exponent_from 0 e x = e"
| "exponent_from (Suc n) e x = (if 2 powi (e + 1) \<le> x then exponent_from n (e + 1) x else e)"

definition float_exponent :: "rat \<Rightarrow> int" where
  "float_exponent x = exponent_from 2045 (- 1022) \<bar>x\<bar>"

definition round_half_even :: "rat \<Rightarrow> int" where
  "round_half_even x =
     (let f = \<lfloor>x\<rfloor>; r = x - of_int f
      in if r < 1 / 2 then f else if 1 / 2 < r then f + 1 else if even f then f else f + 1)"

definition fl :: "rat \<Rightarrow> rat" where
  "fl x = (let q = 2 powi (float_exponent x - 52) in of_int (round_half_even (x / q)) * q)"

definition too_large_for_float :: "int \<Rightarrow> bool" where
  \<comment> \<open>the largest float is \<open>2 ^ 1024 - 2 ^ 971\<close>; from half a step above it on, an int rounds
      to \<open>2 ^ 1024\<close>\<close>
  "too_large_for_float n = (2 ^ 1024 - 2 ^ 970 \<le> \<bar>n\<bar>)"

definition int_to_float :: "int \<Rightarrow> error + rat" where
  "int_to_float n =
     (if too_large_for_float n then Inl (OverflowError ''int too large to convert to float'')
      else Inr (fl (of_int n)))"

definition float_int :: "rat \<Rightarrow> int" where
  \<comment> \<open>\<^verbatim>\<open>int(x)\<close>: the fraction is cut off, towards zero\<close>
  "float_int x = (if x < 0 then - \<lfloor>- x\<rfloor> else \<lfloor>x\<rfloor>)"

definition float_mod_one :: "rat \<Rightarrow> rat" where
  \<comment> \<open>\<^verbatim>\<open>x % 1\<close>: the exact remainder of \<^verbatim>\<open>fmod\<close>, to which 1 is added when it is negative\<close>
  "float_mod_one x =
     (let m = x - of_int (float_int x) in if m < 0 then fl (m + 1) else m)"

section \<open>The schedule\<close>

fun accumulate_from :: "int \<Rightarrow> int list \<Rightarrow> int list" where
  "accumulate_from acc [] = []"
| "accumulate_from acc (x # xs) = (acc + x) # accumulate_from (acc + x) xs"

definition accumulate :: "int list \<Rightarrow> int list" where
  \<comment> \<open>\<^verbatim>\<open>itertools.accumulate\<close>: the running sums\<close>
  "accumulate xs = (case xs of [] \<Rightarrow> [] | x # xs' \<Rightarrow> x # accumulate_from x xs')"

definition millis_counts :: "int \<Rightarrow> error + int list" where
  \<comment> \<open>\<^verbatim>\<open>accumulate([0] + [1000 // fps] * (fps - 1))\<close>; a list repeated a negative number
      of times is empty\<close>
  "millis_counts fps =
     (if fps = 0 then Inl ZeroDivisionError
      else Inr (accumulate (0 # replicate (nat (fps - 1)) (1000 div fps))))"

fun format_all :: "string \<Rightarrow> int list \<Rightarrow> error + string list" where
  "format_all fmt [] = Inr []"
| "format_all fmt (t # ts) =
     (case format_time t fmt of Inl e \<Rightarrow> Inl e
      | Inr label \<Rightarrow> (case format_all fmt ts of Inl e \<Rightarrow> Inl e | Inr labels \<Rightarrow> Inr (label # labels)))"

text \<open>
  \<^verbatim>\<open>generate_frames\<close> builds the list \<^verbatim>\<open>times\<close> of labels in two loops, the whole
  seconds and the last, partial second. \<open>whole_seconds\<close> and \<open>last_second\<close> are the
  elapsed times that the two loops hand to \<^verbatim>\<open>format_time\<close>, \<open>frame_times\<close> is both in
  order, and \<open>generate_frames\<close> is the list of labels; the drawing of the images is
  not modelled. The offsets generator runs, and divides by the frame rate, when a loop
  asks it for its first element. The first statement multiplies the duration by the
  frame rate; the product \<^verbatim>\<open>frames\<close> is never used, but the frame rate is converted to a
  float for it. The first loop then converts the duration to an int, which an infinity
  and the value that is not a number do not have. Lists of every length are taken to be
  constructible, as strings are, and so is a list repeated any number of times: the
  index size of the interpreter is outside the model.
\<close>

definition whole_seconds :: "rat \<Rightarrow> int \<Rightarrow> error + int list" where
  "whole_seconds duration frame_rate =
     (if float_int duration \<le> 0 then Inr []
      else case millis_counts frame_rate of
             Inl e \<Rightarrow> Inl e
           | Inr offsets \<Rightarrow>
               Inr (concat (map (\<lambda>i. map (\<lambda>j. int i * 1000 + j) offsets)
                              [0..<nat (float_int duration)])))"

definition last_second :: "rat \<Rightarrow> int \<Rightarrow> error + int list" where
  "last_second duration frame_rate =
     (case millis_counts frame_rate of
        Inl e \<Rightarrow> Inl e
      | Inr offsets \<Rightarrow>
          Inr (map (\<lambda>i. float_int (fl (duration + 1)) * 1000 + i)
                 (filter (\<lambda>i. of_int i < fl (float_mod_one duration * 1000)) offsets)))"

definition frame_times :: "pyfloat \<Rightarrow> int \<Rightarrow> error + int list" where
  "frame_times duration frame_rate =
     (case int_to_float frame_rate of
        Inl e \<Rightarrow> Inl e
      | Inr rate \<Rightarrow>
          (case duration of
             NaN \<Rightarrow> Inl (ValueError ''cannot convert float NaN to integer'')
           | PosInf \<Rightarrow> Inl (OverflowError ''cannot convert float infinity to integer'')
           | NegInf \<Rightarrow> Inl (OverflowError ''cannot convert float infinity to integer'')
           | Finite d \<Rightarrow>
               (case whole_seconds d frame_rate of
                  Inl e \<Rightarrow> Inl e
                | Inr whole \<Rightarrow>
                    (case last_second d frame_rate of
                       Inl e \<Rightarrow> Inl e
                     | Inr part \<Rightarrow> Inr (whole @ part)))))"

definition generate_frames :: "pyfloat \<Rightarrow> int \<Rightarrow> string \<Rightarrow> error + string list" where
  "generate_frames duration frame_rate time_format =
     (case int_to_float frame_rate of
        Inl e \<Rightarrow> Inl e
      | Inr rate \<Rightarrow>
          (case duration of
             NaN \<Rightarrow> Inl (ValueError ''cannot convert float NaN to integer'')
           | PosInf \<Rightarrow> Inl (OverflowError ''cannot convert float infinity to integer'')
           | NegInf \<Rightarrow> Inl (OverflowError ''cannot convert float infinity to integer'')
           | Finite d \<Rightarrow>
               (case (case whole_seconds d frame_rate of
                        Inl e \<Rightarrow> Inl e
                      | Inr whole \<Rightarrow> format_all time_format whole) of
                  Inl e \<Rightarrow> Inl e
                | Inr labels \<Rightarrow>
                    (case (case last_second d frame_rate of
                             Inl e \<Rightarrow> Inl e
                           | Inr part \<Rightarrow> format_all time_format part) of
                       Inl e \<Rightarrow> Inl e
                     | Inr labels' \<Rightarrow> Inr (labels @ labels')))))"

section \<open>Facts about the string operations\<close>

subsection \<open>Digits and lengths\<close>

lemma digit_char_is_digit: "n < 10 \<Longrightarrow> is_digit (digit_char n)"
  unfolding is_digit_def digit_char_def by (rule nth_mem) simp

lemma str_nat_digits: "list_all is_digit (str_nat n)"
proof (induction n rule: str_nat.induct)
  case (1 n)
  show ?case
  proof (cases "n < 10")
    case True
    then show ?thesis by (simp add: str_nat.simps [of n] digit_char_is_digit)
  next
    case False
    with 1 show ?thesis by (simp add: str_nat.simps [of n] digit_char_is_digit)
  qed
qed

lemma str_nat_not_Nil: "str_nat n \<noteq> []"
  by (subst str_nat.simps) simp

lemma length_rjust: "length (rjust w c s) = max (nat w) (length s)"
  unfolding rjust_def by simp

lemma length_padded: "nat \<bar>dig\<bar> \<le> length (padded units u dig)"
  unfolding padded_def length_rjust by simp

lemma length_directive_text:
  assumes "dig \<noteq> 0"
  shows "length (directive_text units u dig) = nat \<bar>dig\<bar>"
  using assms length_padded [of dig units u]
  unfolding directive_text_def slice_from_def slice_to_def slice_index_def
  by (simp split: if_splits; linarith)

subsection \<open>The substitution over the matches\<close>

lemma rx_sub_scan: "rx_sub repl s = sub_tokens repl (scan s)"
  by (induction repl s rule: rx_sub.induct) (auto split: option.splits sum.splits)

lemma replacer_error:
  "replacer units m = Inl e \<Longrightarrow> e = ValueError ''width cannot be 0''"
  by (auto simp: replacer_def Let_def split: rx_match.splits if_splits)

lemma replacer_zero_width:
  "zero_width (Match m) \<Longrightarrow> replacer units m = Inl (ValueError ''width cannot be 0'')"
  by (auto simp: replacer_def zero_width_def Let_def split: rx_match.splits)

lemma sub_tokens_zero_width:
  "list_ex zero_width ts \<Longrightarrow>
     sub_tokens (replacer units) ts = Inl (ValueError ''width cannot be 0'')"
proof (induction ts)
  case Nil
  then show ?case by simp
next
  case (Cons tok ts)
  show ?case
  proof (cases tok)
    case (Lit c)
    with Cons show ?thesis by (simp add: zero_width_def)
  next
    case (Match m)
    show ?thesis
    proof (cases "replacer units m")
      case (Inl e)
      then show ?thesis using Match replacer_error [OF Inl] by simp
    next
      case (Inr str)
      then have "\<not> zero_width (Match m)"
        using replacer_zero_width [of m units] by auto
      with Cons Match Inr show ?thesis by simp
    qed
  qed
qed

subsection \<open>Texts without a percent sign\<close>

lemma not_digit_percent: "\<not> is_digit CHR ''%''"
  by (simp add: is_digit_def)

lemma str_nat_no_percent: "CHR ''%'' \<notin> set (str_nat n)"
  using str_nat_digits [of n] not_digit_percent by (auto simp: list_all_iff)

lemma str_int_no_percent: "CHR ''%'' \<notin> set (str_int i)"
  by (simp add: str_int_def str_nat_no_percent)

lemma padded_no_percent: "CHR ''%'' \<notin> set (padded units u dig)"
  by (simp add: padded_def rjust_def str_int_no_percent)

lemma directive_text_no_percent: "CHR ''%'' \<notin> set (directive_text units u dig)"
  using padded_no_percent [of units u dig]
  by (auto simp: directive_text_def slice_from_def slice_to_def
      dest: in_set_takeD in_set_dropD)

lemma fmt_run_no_percent: "CHR ''%'' \<notin> set s \<Longrightarrow> fmt_run Text s = Inr s"
  by (induction s) (auto simp: fmt_step_def)

lemma format_no_args_no_percent: "CHR ''%'' \<notin> set s \<Longrightarrow> format_no_args s = Inr s"
  by (simp add: format_no_args_def fmt_run_no_percent)

lemmas match_defs = rx_match_at_def match_digits_def match_unit_def unit_of_char_def
  is_digit_def Let_def

lemmas replacer_defs = replacer_def stored_width_def py_int_def int_of_digits_def
  digit_val_def default_digs_def Let_def

lemma unit_value_millis: "unit_value (get_units_from_milliseconds t) Millis = t mod 1000"
  by (simp add: unit_value_def get_units_from_milliseconds_def Let_def)

lemma sub_2m:
  "rx_sub (replacer units) ''%2m'' = Inr (directive_text units Millis (- 2))"
  by (simp add: match_defs replacer_defs)

lemma sub_neg2m:
  "rx_sub (replacer units) ''%-2m'' = Inr (directive_text units Millis 2)"
  by (simp add: match_defs replacer_defs)

lemma format_time_2m:
  "format_time t ''%2m'' = Inr (directive_text (get_units_from_milliseconds t) Millis (- 2))"
  unfolding format_time_def sub_2m
  by (simp add: format_no_args_no_percent directive_text_no_percent)

lemma format_time_neg2m:
  "format_time t ''%-2m'' = Inr (directive_text (get_units_from_milliseconds t) Millis 2)"
  unfolding format_time_def sub_neg2m
  by (simp add: format_no_args_no_percent directive_text_no_percent)

subsection \<open>Matches in a longer text\<close>

lemma match_unit_append:
  "match_unit x = Some (u, r) \<Longrightarrow> match_unit (x @ s) = Some (u, r @ s)"
  by (auto simp: match_unit_def split: list.splits option.splits)

lemma match_unit_not_digits:
  "match_unit x = Some (u, r) \<Longrightarrow> match_digits (x @ s) = None"
  by (auto simp: match_unit_def match_digits_def unit_of_char_def is_digit_def
      split: list.splits option.splits if_splits)

lemma takeWhile_append_stop:
  "dropWhile P xs \<noteq> [] \<Longrightarrow> takeWhile P (xs @ ys) = takeWhile P xs"
  by (induction xs) auto

lemma dropWhile_append_stop:
  "dropWhile P xs \<noteq> [] \<Longrightarrow> dropWhile P (xs @ ys) = dropWhile P xs @ ys"
  by (induction xs) auto

lemma match_digits_append:
  "match_digits x = Some (ds, r) \<Longrightarrow> r \<noteq> [] \<Longrightarrow> match_digits (x @ s) = Some (ds, r @ s)"
  by (auto simp: match_digits_def Let_def takeWhile_append_stop dropWhile_append_stop
      split: list.splits if_splits)

lemma rx_match_at_append:
  assumes "rx_match_at x = Some (m, r)"
  shows "rx_match_at (x @ s) = Some (m, r @ s)"
proof -
  from assms obtain y where x: "x = CHR ''%'' # y"
    by (auto simp: rx_match_at_def split: list.splits if_splits)
  show ?thesis
  proof (cases "match_digits y")
    case None
    show ?thesis
    proof (cases "match_unit y")
      case None': None
      with None assms x obtain y' where y: "y = CHR ''%'' # y'" and m: "m = Percent" "r = y'"
        by (auto simp: rx_match_at_def split: list.splits if_splits)
      have "match_digits (y @ s) = None" "match_unit (y @ s) = None"
        unfolding y by (simp_all add: match_digits_def match_unit_def unit_of_char_def is_digit_def)
      then show ?thesis
        unfolding x y m by (simp add: rx_match_at_def)
    next
      case (Some ur)
      then obtain u r' where ur: "match_unit y = Some (u, r')" by (cases ur) auto
      with None assms x have m: "m = Spec None u" "r = r'"
        by (auto simp: rx_match_at_def)
      show ?thesis
        unfolding x m
        by (simp add: rx_match_at_def match_unit_not_digits [OF ur] match_unit_append [OF ur])
    qed
  next
    case (Some dr)
    then obtain ds r1 where dr: "match_digits y = Some (ds, r1)" by (cases dr) auto
    have no_unit: "match_unit y = None"
      using dr match_unit_not_digits [of y _ _ "[]"] by (cases "match_unit y") auto
    have no_pct: "\<not> (\<exists>y'. y = CHR ''%'' # y')"
      using dr by (auto simp: match_digits_def Let_def is_digit_def split: if_splits)
    from assms x dr no_unit no_pct obtain u where
      u: "match_unit r1 = Some (u, r)" and m: "m = Spec (Some ds) u"
      by (auto simp: rx_match_at_def split: option.splits list.splits if_splits)
    from u have "r1 \<noteq> []" by (auto simp: match_unit_def)
    then have "match_digits (y @ s) = Some (ds, r1 @ s)"
      using dr by (rule match_digits_append [rotated])
    then show ?thesis
      unfolding x m by (simp add: rx_match_at_def match_unit_append [OF u])
  qed
qed

lemma rx_match_at_not_percent: "c \<noteq> CHR ''%'' \<Longrightarrow> rx_match_at (c # cs) = None"
  by (simp add: rx_match_at_def)

lemma scan_append:
  "Lit CHR ''%'' \<notin> set (scan p) \<Longrightarrow> scan (p @ s) = scan p @ scan s"
proof (induction p rule: scan.induct)
  case 1
  then show ?case by simp
next
  case (2 c cs)
  show ?case
  proof (cases "rx_match_at (c # cs)")
    case None
    with 2 have c: "c \<noteq> CHR ''%''" and rest: "Lit CHR ''%'' \<notin> set (scan cs)"
      by auto
    from 2(1) [OF None rest] None c show ?thesis
      by (simp add: rx_match_at_not_percent)
  next
    case (Some mr)
    then obtain m rest where mr: "rx_match_at (c # cs) = Some (m, rest)" by (cases mr) auto
    with 2(3) have rest: "Lit CHR ''%'' \<notin> set (scan rest)" by auto
    have ih: "scan (rest @ s) = scan rest @ scan s"
      using 2(2) [OF mr _ rest] by simp
    from rx_match_at_append [OF mr, of s] have "rx_match_at (c # cs @ s) = Some (m, rest @ s)"
      by simp
    with mr ih show ?thesis by simp
  qed
qed

lemma sub_tokens_append:
  "sub_tokens repl (xs @ ys) =
     (case sub_tokens repl xs of Inl e \<Rightarrow> Inl e
      | Inr a \<Rightarrow> (case sub_tokens repl ys of Inl e \<Rightarrow> Inl e | Inr b \<Rightarrow> Inr (a @ b)))"
  by (induction repl xs rule: sub_tokens.induct) (auto split: sum.splits)

lemma fmt_run_append:
  "fmt_run st x = Inr a \<Longrightarrow>
     fmt_run st (x @ y) = (case fmt_run Text y of Inl e \<Rightarrow> Inl e | Inr b \<Rightarrow> Inr (a @ b))"
proof (induction x arbitrary: st a)
  case Nil
  then show ?case by (auto split: if_splits sum.splits)
next
  case (Cons c x)
  then show ?case by (auto split: sum.splits prod.splits)
qed

lemma scan_escape: "scan (CHR ''%'' # CHR ''%'' # q) = Match Percent # scan q"
  by (simp add: rx_match_at_def match_digits_def match_unit_def unit_of_char_def is_digit_def)

lemma fmt_run_escape:
  "fmt_run Text (CHR ''%'' # CHR ''%'' # s) =
     (case fmt_run Text s of Inl e \<Rightarrow> Inl e | Inr b \<Rightarrow> Inr (CHR ''%'' # b))"
  by (simp add: fmt_step_def first_step_def split: sum.splits)

lemma format_time_Inr:
  "format_time t s = Inr b \<Longrightarrow>
     \<exists>x. sub_tokens (replacer (get_units_from_milliseconds t)) (scan s) = Inr x
        \<and> fmt_run Text x = Inr b"
  by (auto simp: format_time_def rx_sub_scan format_no_args_def split: sum.splits)

subsection \<open>The format reader on digits\<close>

lemma digit_not_special:
  "is_digit c \<Longrightarrow> c \<noteq> CHR ''%'' \<and> c \<noteq> CHR ''('' \<and> c \<noteq> CHR ''*'' \<and> c \<noteq> CHR ''.''"
  unfolding is_digit_def by auto

lemma flags_step_digit:
  "is_digit c \<Longrightarrow> flags_step c = Inr (st', w) \<Longrightarrow> kind st' = 2 \<and> w = []"
  using digit_not_special [of c] by (auto simp: flags_step_def split: if_splits)

lemma width_step_digit:
  "is_digit c \<Longrightarrow> width_step n c = Inr (st', w) \<Longrightarrow> kind st' = 2 \<and> w = []"
  by (auto simp: width_step_def split: if_splits)

lemma precstart_step_digit:
  "is_digit c \<Longrightarrow> precstart_step c = Inr (st', w) \<Longrightarrow> kind st' = 4 \<and> w = []"
  using digit_not_special [of c] by (auto simp: precstart_step_def split: if_splits)

lemma prec_step_digit:
  "is_digit c \<Longrightarrow> prec_step n c = Inr (st', w) \<Longrightarrow> kind st' = 4 \<and> w = []"
  by (auto simp: prec_step_def split: if_splits)

lemma conv_step_digit: "is_digit c \<Longrightarrow> conv_step c = Inl not_enough"
  using digit_not_special [of c] by (simp add: conv_step_def)

lemma fmt_step_digit:
  assumes "is_digit c" "fmt_step st c = Inr (st', w)"
  shows "kind st' = (if kind st = 0 then 0 else if kind st \<le> 2 then 2 else 4)
         \<and> length w = (if kind st = 0 then 1 else 0)"
proof (cases st)
  case Text
  with assms digit_not_special [of c] show ?thesis by (auto simp: fmt_step_def)
next
  case First
  with assms digit_not_special [of c] have "flags_step c = Inr (st', w)"
    by (simp add: fmt_step_def first_step_def)
  from flags_step_digit [OF assms(1) this] First show ?thesis by simp
next
  case Flags
  with assms have "flags_step c = Inr (st', w)" by (simp add: fmt_step_def)
  from flags_step_digit [OF assms(1) this] Flags show ?thesis by simp
next
  case (Width n)
  with assms have "width_step n c = Inr (st', w)" by (simp add: fmt_step_def)
  from width_step_digit [OF assms(1) this] Width show ?thesis by simp
next
  case PrecStart
  with assms have "precstart_step c = Inr (st', w)" by (simp add: fmt_step_def)
  from precstart_step_digit [OF assms(1) this] PrecStart show ?thesis by simp
next
  case (Prec n)
  with assms have "prec_step n c = Inr (st', w)" by (simp add: fmt_step_def)
  from prec_step_digit [OF assms(1) this] Prec show ?thesis by simp
next
  case Conv
  with assms conv_step_digit [of c] show ?thesis by (simp add: fmt_step_def)
qed

lemma is_digit_zero: "is_digit CHR ''0''"
  by (simp add: is_digit_def)

lemma flag_cases:
  "is_flag c \<Longrightarrow>
     c = CHR ''0'' \<or> c = CHR ''-'' \<or> c = CHR ''+'' \<or> c = CHR '' '' \<or> c = CHR ''#''"
  unfolding is_flag_def by auto

lemma flag_afterwidth:
  assumes "is_flag c" "\<not> is_digit c"
  shows "afterwidth_step c = Inl not_enough"
proof -
  from assms is_digit_zero have "c \<noteq> CHR ''0''" by auto
  with flag_cases [OF assms(1)]
  have "c = CHR ''-'' \<or> c = CHR ''+'' \<or> c = CHR '' '' \<or> c = CHR ''#''" by simp
  then show ?thesis
    by (elim disjE) (simp_all add: afterwidth_step_def lenmod_step_def conv_step_def)
qed

lemma fmt_step_not_digit:
  assumes "\<not> is_digit c" "kind st1 = kind st2"
    "fmt_step st1 c = Inr r1" "fmt_step st2 c = Inr r2"
  shows "r1 = r2"
proof (cases "st1 = st2")
  case True
  with assms show ?thesis by simp
next
  case False
  with assms(2) consider
      w where "st1 = Flags" "st2 = Width w"
    | w where "st1 = Width w" "st2 = Flags"
    | w w' where "st1 = Width w" "st2 = Width w'"
    | p p' where "st1 = Prec p" "st2 = Prec p'"
    by (cases st1; cases st2) auto
  then show ?thesis
  proof cases
    case 1
    with assms flag_afterwidth [of c] show ?thesis
      by (auto simp: fmt_step_def flags_step_def width_step_def split: if_splits)
  next
    case 2
    with assms flag_afterwidth [of c] show ?thesis
      by (auto simp: fmt_step_def flags_step_def width_step_def split: if_splits)
  next
    case 3
    with assms show ?thesis by (auto simp: fmt_step_def width_step_def)
  next
    case 4
    with assms show ?thesis by (auto simp: fmt_step_def prec_step_def)
  qed
qed

lemma fmt_step_sim:
  assumes "sim c1 c2" "kind st1 = kind st2"
    "fmt_step st1 c1 = Inr (st1', w1)" "fmt_step st2 c2 = Inr (st2', w2)"
  shows "kind st1' = kind st2' \<and> length w1 = length w2"
proof (cases "is_digit c1 \<and> is_digit c2")
  case True
  with fmt_step_digit [OF _ assms(3)] fmt_step_digit [OF _ assms(4)] assms(2)
  show ?thesis by simp
next
  case False
  with assms(1) have eq: "c1 = c2" and nd: "\<not> is_digit c1" by (auto simp: sim_def)
  from fmt_step_not_digit [OF nd assms(2) assms(3)] assms(4) eq
  show ?thesis by auto
qed

lemma fmt_run_sim:
  "list_all2 sim x1 x2 \<Longrightarrow> kind st1 = kind st2 \<Longrightarrow>
   fmt_run st1 x1 = Inr o1 \<Longrightarrow> fmt_run st2 x2 = Inr o2 \<Longrightarrow> length o1 = length o2"
proof (induction x1 x2 arbitrary: st1 st2 o1 o2 rule: list_all2_induct)
  case Nil
  then show ?case by (auto split: if_splits)
next
  case (Cons c1 x1 c2 x2)
  from Cons.prems(2) obtain st1' w1 r1 where
    s1: "fmt_step st1 c1 = Inr (st1', w1)" "fmt_run st1' x1 = Inr r1" "o1 = w1 @ r1"
    by (auto split: sum.splits)
  from Cons.prems(3) obtain st2' w2 r2 where
    s2: "fmt_step st2 c2 = Inr (st2', w2)" "fmt_run st2' x2 = Inr r2" "o2 = w2 @ r2"
    by (auto split: sum.splits)
  from fmt_step_sim [OF Cons.hyps(1) Cons.prems(1) s1(1) s2(1)]
  have k: "kind st1' = kind st2'" and l: "length w1 = length w2" by simp_all
  from Cons.IH [OF k s1(2) s2(2)] l s1(3) s2(3) show ?case by simp
qed

lemma str_int_digits: "0 \<le> i \<Longrightarrow> list_all is_digit (str_int i)"
  by (simp add: str_int_def str_nat_digits)

lemma padded_digits: "0 \<le> unit_value units u \<Longrightarrow> list_all is_digit (padded units u dig)"
  using str_int_digits [of "unit_value units u"]
  by (auto simp: padded_def rjust_def is_digit_zero list_all_iff)

lemma directive_text_digits:
  "0 \<le> unit_value units u \<Longrightarrow> list_all is_digit (directive_text units u dig)"
  using padded_digits [of units u dig]
  by (auto simp: directive_text_def slice_from_def slice_to_def list_all_iff
      dest: in_set_takeD in_set_dropD)

lemma sim_digits:
  "length xs = length ys \<Longrightarrow> list_all is_digit xs \<Longrightarrow> list_all is_digit ys \<Longrightarrow>
     list_all2 sim xs ys"
  by (induction xs ys rule: list_induct2) (auto simp: sim_def)

lemma sim_refl: "list_all2 sim xs xs"
  by (rule list_all2_refl) (simp add: sim_def)

lemma unit_value_nonneg:
  "0 \<le> t \<Longrightarrow> 0 \<le> unit_value (get_units_from_milliseconds t) u"
  by (cases u)
     (simp_all add: unit_value_def get_units_from_milliseconds_def Let_def
        pos_imp_zdiv_nonneg_iff)

lemma replacer_sim:
  assumes "0 \<le> t1" "0 \<le> t2"
    "replacer (get_units_from_milliseconds t1) m = Inr x1"
    "replacer (get_units_from_milliseconds t2) m = Inr x2"
  shows "list_all2 sim x1 x2"
proof (cases m)
  case Percent
  with assms show ?thesis by (auto simp: replacer_def sim_refl)
next
  case (Spec digits u)
  let ?w = "stored_width digits u"
  from Spec assms have w: "?w \<noteq> 0"
    and x: "x1 = directive_text (get_units_from_milliseconds t1) u ?w"
      "x2 = directive_text (get_units_from_milliseconds t2) u ?w"
    by (auto simp: replacer_def Let_def split: if_splits)
  show ?thesis
    unfolding x
    by (rule sim_digits)
       (simp_all add: length_directive_text [OF w] directive_text_digits unit_value_nonneg assms)
qed

lemma sub_tokens_sim:
  assumes "0 \<le> t1" "0 \<le> t2"
  shows "sub_tokens (replacer (get_units_from_milliseconds t1)) ts = Inr x1 \<Longrightarrow>
         sub_tokens (replacer (get_units_from_milliseconds t2)) ts = Inr x2 \<Longrightarrow>
         list_all2 sim x1 x2"
proof (induction ts arbitrary: x1 x2)
  case Nil
  then show ?case by simp
next
  case (Cons tok ts)
  show ?case
  proof (cases tok)
    case (Lit c)
    with Cons.prems obtain y1 y2 where
      y: "sub_tokens (replacer (get_units_from_milliseconds t1)) ts = Inr y1"
         "sub_tokens (replacer (get_units_from_milliseconds t2)) ts = Inr y2"
         "x1 = c # y1" "x2 = c # y2"
      by (auto split: sum.splits)
    from Cons.IH [OF y(1) y(2)] y(3) y(4) show ?thesis by (simp add: sim_def)
  next
    case (Match m)
    with Cons.prems obtain a1 y1 a2 y2 where
      y: "replacer (get_units_from_milliseconds t1) m = Inr a1"
         "sub_tokens (replacer (get_units_from_milliseconds t1)) ts = Inr y1"
         "replacer (get_units_from_milliseconds t2) m = Inr a2"
         "sub_tokens (replacer (get_units_from_milliseconds t2)) ts = Inr y2"
         "x1 = a1 @ y1" "x2 = a2 @ y2"
      by (auto split: sum.splits)
    from replacer_sim [OF assms y(1) y(3)] Cons.IH [OF y(2) y(4)] y(5) y(6)
    show ?thesis by (simp add: list_all2_appendI)
  qed
qed

subsection \<open>Rounding\<close>

lemma two_powi_less: "(2::rat) powi a < 2 powi b \<Longrightarrow> a < b"
  using power_int_increasing [of b a "2::rat"] by (cases "a < b") auto

lemma two_powi_le: "a \<le> b \<Longrightarrow> (2::rat) powi a \<le> 2 powi b"
  by (rule power_int_increasing) simp_all

lemma exponent_from_eq:
  "e0 \<le> e \<Longrightarrow> nat (e - e0) \<le> n \<Longrightarrow> x < 2 powi (e + 1) \<Longrightarrow> (e0 < e \<longrightarrow> 2 powi e \<le> x) \<Longrightarrow>
     exponent_from n e0 x = e"
proof (induction n arbitrary: e0)
  case 0
  then show ?case by simp
next
  case (Suc n)
  show ?case
  proof (cases "2 powi (e0 + 1) \<le> x")
    case True
    with Suc.prems(3) have "(2::rat) powi (e0 + 1) < 2 powi (e + 1)" by simp
    then have lt: "e0 < e" using two_powi_less [of "e0 + 1" "e + 1"] by simp
    have "exponent_from n (e0 + 1) x = e"
      using Suc.prems lt by (intro Suc.IH) auto
    with True show ?thesis by simp
  next
    case False
    have "e0 = e"
    proof (rule ccontr)
      assume "e0 \<noteq> e"
      with Suc.prems(1) have lt: "e0 < e" by simp
      then have "(2::rat) powi (e0 + 1) \<le> 2 powi e" by (intro two_powi_le) simp
      with Suc.prems(4) lt False show False by simp
    qed
    with False show ?thesis by simp
  qed
qed

lemma float_exponent_eq:
  assumes "- 1022 \<le> e" "e \<le> 1023" "2 powi e \<le> \<bar>x\<bar>" "\<bar>x\<bar> < 2 powi (e + 1)"
  shows "float_exponent x = e"
  unfolding float_exponent_def using assms by (intro exponent_from_eq) auto

lemma fl_eq:
  assumes "- 1022 \<le> e" "e \<le> 1023" "2 powi e \<le> \<bar>x\<bar>" "\<bar>x\<bar> < 2 powi (e + 1)"
  shows "fl x = of_int (round_half_even (x / 2 powi (e - 52))) * 2 powi (e - 52)"
  unfolding fl_def float_exponent_eq [OF assms] by (simp add: Let_def)

lemma floor_rat_numeral_div:
  "\<lfloor>(numeral a :: rat) / numeral b\<rfloor> = numeral a div numeral b"
  using floor_divide_of_int_eq [of "numeral a" "numeral b", where ?'a = rat] by simp

lemma fl_half: "fl (1 / 2) = 1 / 2"
  by (subst fl_eq [of "- 1"]) (simp_all add: round_half_even_def Let_def floor_rat_numeral_div)

lemma fl_500: "fl 500 = 500"
  by (subst fl_eq [of 8]) (simp_all add: round_half_even_def Let_def floor_rat_numeral_div)

lemma fl_seven_halves: "fl (7 / 2) = 7 / 2"
  by (subst fl_eq [of 1]) (simp_all add: round_half_even_def Let_def floor_rat_numeral_div)

subsection \<open>The offsets and the two loops\<close>

lemma accumulate_from_replicate:
  "accumulate_from acc (replicate n s) = map (\<lambda>j. acc + int (Suc j) * s) [0..<n]"
proof (induction n arbitrary: acc)
  case 0
  then show ?case by simp
next
  case (Suc n)
  have "map (\<lambda>j. acc + int (Suc j) * s) [0..<Suc n] =
        (acc + s) # map (\<lambda>j. acc + int (Suc j) * s) [Suc 0..<Suc n]"
    by (simp add: upt_conv_Cons del: upt_Suc)
  also have "map (\<lambda>j. acc + int (Suc j) * s) [Suc 0..<Suc n] =
        map (\<lambda>j. (acc + s) + int (Suc j) * s) [0..<n]"
    unfolding map_Suc_upt [symmetric] by (simp add: algebra_simps)
  finally show ?case by (simp add: Suc.IH replicate_Suc [of n s])
qed

lemma millis_counts_offsets:
  assumes "0 < fps"
  shows "millis_counts fps = Inr (map (\<lambda>j. int j * (1000 div fps)) [0..<nat fps])"
proof -
  from assms obtain n where n: "nat fps = Suc n" "nat (fps - 1) = n"
    by (cases "nat fps") auto
  have "map (\<lambda>j. int j * (1000 div fps)) [0..<Suc n] =
        0 # map (\<lambda>j. int j * (1000 div fps)) [Suc 0..<Suc n]"
    by (simp add: upt_conv_Cons del: upt_Suc)
  also have "map (\<lambda>j. int j * (1000 div fps)) [Suc 0..<Suc n] =
        map (\<lambda>j. 0 + int (Suc j) * (1000 div fps)) [0..<n]"
    unfolding map_Suc_upt [symmetric] by simp
  finally show ?thesis
    using assms by (simp add: millis_counts_def accumulate_def accumulate_from_replicate n)
qed

lemma format_all_append:
  "format_all fmt (xs @ ys) =
     (case format_all fmt xs of Inl e \<Rightarrow> Inl e
      | Inr a \<Rightarrow> (case format_all fmt ys of Inl e \<Rightarrow> Inl e | Inr b \<Rightarrow> Inr (a @ b)))"
  by (induction xs) (auto split: sum.splits)

lemma generate_frames_frame_times:
  "generate_frames duration frame_rate time_format =
     (case frame_times duration frame_rate of
        Inl e \<Rightarrow> Inl e
      | Inr ts \<Rightarrow> format_all time_format ts)"
proof (cases duration)
  case (Finite d)
  show ?thesis
  proof (cases "frame_rate = 0")
    case True
    then show ?thesis
      unfolding Finite
      by (simp add: generate_frames_def frame_times_def whole_seconds_def last_second_def
          millis_counts_def split: sum.splits)
  next
    case False
    then show ?thesis
      unfolding Finite
      by (simp add: generate_frames_def frame_times_def whole_seconds_def last_second_def
          millis_counts_def format_all_append split: sum.splits)
  qed
qed (simp_all add: generate_frames_def frame_times_def split: sum.splits)

lemma small_int_has_float: "\<bar>n\<bar> < 2 ^ 53 \<Longrightarrow> \<not> too_large_for_float n"
proof -
  assume "\<bar>n\<bar> < 2 ^ 53"
  moreover have "(2::int) ^ 53 \<le> 2 ^ 1024 - 2 ^ 970" by simp
  ultimately show ?thesis by (simp add: too_large_for_float_def)
qed

lemma frame_times_Finite:
  "frame_times (Finite d) fps =
     (if too_large_for_float fps then Inl (OverflowError ''int too large to convert to float'')
      else case whole_seconds d fps of
             Inl e \<Rightarrow> Inl e
           | Inr whole \<Rightarrow>
               (case last_second d fps of Inl e \<Rightarrow> Inl e | Inr part \<Rightarrow> Inr (whole @ part)))"
  by (simp add: frame_times_def int_to_float_def)

lemma float_int_nonneg: "0 \<le> d \<Longrightarrow> float_int d = \<lfloor>d\<rfloor>"
  by (simp add: float_int_def)

lemma float_mod_one_nonneg:
  assumes "0 \<le> d"
  shows "float_mod_one d = d - of_int \<lfloor>d\<rfloor>"
proof -
  have "\<not> d < of_int \<lfloor>d\<rfloor>"
    using of_int_floor_le [of d] by linarith
  then show ?thesis
    using assms by (simp add: float_mod_one_def float_int_nonneg Let_def)
qed

lemma whole_seconds_offsets:
  assumes "0 \<le> d" "0 < fps"
  shows "whole_seconds d fps =
     Inr (concat (map (\<lambda>i. map (\<lambda>j. int i * 1000 + int j * (1000 div fps)) [0..<nat fps])
                    [0..<nat \<lfloor>d\<rfloor>]))"
proof (cases "\<lfloor>d\<rfloor> \<le> 0")
  case True
  then show ?thesis
    using assms by (simp add: whole_seconds_def float_int_nonneg)
next
  case False
  then show ?thesis
    using assms
    by (simp add: whole_seconds_def float_int_nonneg millis_counts_offsets comp_def)
qed

lemma last_second_offsets:
  assumes "0 \<le> d" "0 < fps"
  shows "last_second d fps =
     Inr (map (\<lambda>off. float_int (fl (d + 1)) * 1000 + off)
            (filter (\<lambda>off. of_int off < fl ((d - of_int \<lfloor>d\<rfloor>) * 1000))
               (map (\<lambda>j. int j * (1000 div fps)) [0..<nat fps])))"
  using assms by (simp add: last_second_def millis_counts_offsets float_mod_one_nonneg)

lemma floor_rat_one_div: "\<lfloor>(1::rat) / numeral b\<rfloor> = 1 div numeral b"
  using floor_divide_of_int_eq [of 1 "numeral b", where ?'a = rat] by simp

lemma last_second_eval:
  assumes "millis_counts fps = Inr offsets" "float_int (fl (d + 1)) = n"
    "fl (float_mod_one d * 1000) = b"
  shows "last_second d fps =
           Inr (map (\<lambda>i. n * 1000 + i) (filter (\<lambda>i. of_int i < b) offsets))"
  using assms by (simp add: last_second_def)

lemma whole_seconds_eval:
  assumes "millis_counts fps = Inr offsets" "float_int d = n"
  shows "whole_seconds d fps =
           Inr (concat (map (\<lambda>i. map (\<lambda>j. int i * 1000 + j) offsets) [0..<nat n]))"
  using assms by (simp add: whole_seconds_def)

subsection \<open>The second after a rounded sum\<close>

lemma exponent_from_bounds:
  "2 powi e0 \<le> x \<Longrightarrow> x < 2 powi (e0 + int n + 1) \<Longrightarrow>
     2 powi (exponent_from n e0 x) \<le> x \<and> x < 2 powi (exponent_from n e0 x + 1)"
proof (induction n arbitrary: e0)
  case 0
  then show ?case by simp
next
  case (Suc n)
  show ?case
  proof (cases "2 powi (e0 + 1) \<le> x")
    case True
    from Suc.prems(2) have "x < 2 powi (e0 + 1 + int n + 1)"
      by (simp add: add.commute add.left_commute)
    from Suc.IH [OF True this] True show ?thesis by simp
  next
    case False
    with Suc.prems(1) show ?thesis by simp
  qed
qed

lemma float_exponent_bounds:
  assumes "1 \<le> x" "x < 2 ^ 53"
  shows "0 \<le> float_exponent x \<and> float_exponent x \<le> 52"
proof -
  let ?e = "float_exponent x"
  have x: "\<bar>x\<bar> = x" using assms by simp
  have lo: "2 powi (- 1022) \<le> x"
  proof -
    have "(2::rat) powi (- 1022) \<le> 2 powi 0" by (rule two_powi_le) simp
    with assms show ?thesis by simp
  qed
  have hi: "x < 2 powi (- 1022 + int 2045 + 1)"
  proof -
    have "(2::rat) powi 53 \<le> 2 powi (- 1022 + int 2045 + 1)" by (rule two_powi_le) simp
    with assms show ?thesis by simp
  qed
  from exponent_from_bounds [OF lo hi]
  have b: "2 powi ?e \<le> x" "x < 2 powi (?e + 1)"
    by (simp_all add: float_exponent_def x)
  from b(2) assms(1) have "(2::rat) powi 0 < 2 powi (?e + 1)" by simp
  from two_powi_less [OF this] have "0 \<le> ?e" by simp
  moreover from b(1) assms(2) have "(2::rat) powi ?e < 2 powi 53" by simp
  from two_powi_less [OF this] have "?e \<le> 52" by simp
  ultimately show ?thesis by simp
qed

lemma round_half_even_ge: "of_int n \<le> y \<Longrightarrow> n \<le> round_half_even y"
proof -
  assume "of_int n \<le> y"
  then have "n \<le> \<lfloor>y\<rfloor>" by (simp add: le_floor_iff)
  then show ?thesis by (simp add: round_half_even_def Let_def)
qed

lemma fl_ge_int:
  assumes "1 \<le> x" "x < 2 ^ 53" "of_int k \<le> x"
  shows "of_int k \<le> fl x"
proof -
  let ?e = "float_exponent x"
  let ?m = "nat (52 - ?e)"
  from float_exponent_bounds [OF assms(1,2)] have e: "0 \<le> ?e" "?e \<le> 52" by simp_all
  have q: "(2::rat) powi (?e - 52) = 1 / 2 ^ ?m"
    using e by (simp add: power_int_def field_simps)
  have "of_int (k * 2 ^ ?m) \<le> x / (2 powi (?e - 52))"
    using assms(3) unfolding q by (simp add: mult_right_mono)
  then have "k * 2 ^ ?m \<le> round_half_even (x / (2 powi (?e - 52)))"
    by (rule round_half_even_ge)
  then have "of_int (k * 2 ^ ?m) \<le> (of_int (round_half_even (x / (2 powi (?e - 52)))) :: rat)"
    by (simp only: of_int_le_iff)
  then have "of_int (k * 2 ^ ?m) * (1 / 2 ^ ?m) \<le>
      (of_int (round_half_even (x / (2 powi (?e - 52)))) :: rat) * (1 / 2 ^ ?m)"
    by (rule mult_right_mono) simp
  then show ?thesis
    unfolding fl_def Let_def q by simp
qed

lemma float_int_next_second:
  assumes "0 \<le> d" "d + 1 < 2 ^ 53" "fl (d + 1) < of_int \<lfloor>d\<rfloor> + 2"
  shows "float_int (fl (d + 1)) = \<lfloor>d\<rfloor> + 1"
proof -
  have "of_int (\<lfloor>d\<rfloor> + 1) \<le> d + 1" by simp
  with assms have lo: "of_int (\<lfloor>d\<rfloor> + 1) \<le> fl (d + 1)"
    by (intro fl_ge_int) simp_all
  have "(0::rat) \<le> of_int \<lfloor>d\<rfloor>" using assms(1) by simp
  moreover have "of_int \<lfloor>d\<rfloor> + 1 \<le> fl (d + 1)" using lo by simp
  ultimately have "0 \<le> fl (d + 1)" by linarith
  then have "float_int (fl (d + 1)) = \<lfloor>fl (d + 1)\<rfloor>" by (rule float_int_nonneg)
  also have "\<dots> = \<lfloor>d\<rfloor> + 1"
    using lo assms(3) by (intro floor_unique) simp_all
  finally show ?thesis .
qed

subsection \<open>A percent sign that the scan leaves\<close>

lemma fmt_step_inside:
  assumes "2 \<le> kind st" "fmt_step st c = Inr (st', w)"
  shows "2 \<le> kind st'"
  using assms
  by (cases st)
     (auto simp: fmt_step_def flags_step_def width_step_def afterwidth_step_def
        precstart_step_def prec_step_def lenmod_step_def conv_step_def split: if_splits)

lemma fmt_run_inside: "2 \<le> kind st \<Longrightarrow> \<exists>e. fmt_run st s = Inl e"
proof (induction s arbitrary: st)
  case Nil
  then show ?case by auto
next
  case (Cons c s)
  show ?case
  proof (cases "fmt_step st c")
    case (Inl e)
    then show ?thesis by simp
  next
    case (Inr r)
    obtain st' w where r: "r = (st', w)" by (cases r)
    from fmt_step_inside [OF Cons.prems Inr [unfolded r]] have "2 \<le> kind st'" .
    from Cons.IH [OF this] obtain e where "fmt_run st' s = Inl e" ..
    with Inr r show ?thesis by simp
  qed
qed

lemma fmt_run_First:
  assumes "s = [] \<or> hd s \<noteq> CHR ''%''"
  shows "\<exists>e. fmt_run First s = Inl e"
proof (cases s)
  case Nil
  then show ?thesis by simp
next
  case (Cons c cs)
  with assms have c: "c \<noteq> CHR ''%''" by simp
  show ?thesis
  proof (cases "fmt_step First c")
    case (Inl e)
    with Cons show ?thesis by simp
  next
    case (Inr r)
    obtain st' w where r: "r = (st', w)" by (cases r)
    from Inr r c have "flags_step c = Inr (st', w)"
      by (simp add: fmt_step_def first_step_def split: if_splits)
    then have "fmt_step Flags c = Inr (st', w)" by (simp add: fmt_step_def)
    from fmt_step_inside [OF _ this] have "2 \<le> kind st'" by simp
    from fmt_run_inside [OF this] obtain e where "fmt_run st' cs = Inl e" ..
    with Inr r Cons show ?thesis by simp
  qed
qed

lemma rx_match_at_stray:
  "rx_match_at (CHR ''%'' # cs) = None \<Longrightarrow> cs = [] \<or> hd cs \<noteq> CHR ''%''"
  by (cases cs)
     (auto simp: rx_match_at_def match_digits_def match_unit_def unit_of_char_def is_digit_def
        split: option.splits)

lemma rx_sub_head:
  "c \<noteq> CHR ''%'' \<Longrightarrow> rx_sub repl (c # cs) = Inr x \<Longrightarrow> hd x = c \<and> x \<noteq> []"
  by (auto simp: rx_match_at_not_percent split: sum.splits)

lemma rx_sub_after_stray:
  assumes "rx_match_at (CHR ''%'' # cs) = None" "rx_sub repl cs = Inr x"
  shows "x = [] \<or> hd x \<noteq> CHR ''%''"
proof (cases cs)
  case Nil
  with assms show ?thesis by simp
next
  case (Cons c r)
  with rx_match_at_stray [OF assms(1)] have "c \<noteq> CHR ''%''" by simp
  from rx_sub_head [OF this assms(2) [unfolded Cons]] this show ?thesis by simp
qed

lemma replacer_text_formats:
  "replacer units m = Inr str \<Longrightarrow> \<exists>out. fmt_run Text str = Inr out"
  by (cases m)
     (auto simp: replacer_def Let_def fmt_step_def first_step_def fmt_run_no_percent
        directive_text_no_percent split: if_splits)

lemma stray_percent_fails:
  "Lit CHR ''%'' \<in> set (scan s) \<Longrightarrow> rx_sub (replacer units) s = Inr x \<Longrightarrow>
     \<exists>e. fmt_run Text x = Inl e"
proof (induction s arbitrary: x rule: scan.induct)
  case 1
  then show ?case by simp
next
  case (2 c cs)
  show ?case
  proof (cases "rx_match_at (c # cs)")
    case None
    with "2.prems"(2) obtain x' where x': "rx_sub (replacer units) cs = Inr x'" "x = c # x'"
      by (auto split: sum.splits)
    show ?thesis
    proof (cases "c = CHR ''%''")
      case True
      from rx_sub_after_stray [OF None [unfolded True] x'(1)]
      have "\<exists>e. fmt_run First x' = Inl e" by (rule fmt_run_First)
      then show ?thesis unfolding x'(2) True by (auto simp: fmt_step_def)
    next
      case False
      with "2.prems"(1) None have "Lit CHR ''%'' \<in> set (scan cs)" by simp
      from "2.IH"(1) [OF None this x'(1)] obtain e where "fmt_run Text x' = Inl e" ..
      then show ?thesis unfolding x'(2) using False by (simp add: fmt_step_def)
    qed
  next
    case (Some mr)
    then obtain m rest where mr: "rx_match_at (c # cs) = Some (m, rest)" by (cases mr) auto
    with "2.prems"(2) obtain str x' where
      parts: "replacer units m = Inr str" "rx_sub (replacer units) rest = Inr x'" "x = str @ x'"
      by (auto split: sum.splits)
    from "2.prems"(1) mr have "Lit CHR ''%'' \<in> set (scan rest)" by simp
    from "2.IH"(2) [OF mr _ this parts(2)] obtain e where e: "fmt_run Text x' = Inl e" by auto
    from replacer_text_formats [OF parts(1)] obtain out where "fmt_run Text str = Inr out" ..
    from fmt_run_append [OF this, of x'] e show ?thesis unfolding parts(3) by simp
  qed
qed

subsection \<open>Digit strings and their values\<close>

lemma digit_val_digit_char: "n < 10 \<Longrightarrow> digit_val (digit_char n) = n"
proof -
  assume n: "n < 10"
  have "list_all (\<lambda>k. digit_val (digit_char k) = k) [0..<10]"
    by code_simp
  with n show ?thesis by (simp add: list_all_iff)
qed

lemma int_of_digits_snoc:
  "int_of_digits (ds @ [c]) = 10 * int_of_digits ds + int (digit_val c)"
  by (simp add: int_of_digits_def)

lemma int_of_digits_str_nat: "int_of_digits (str_nat n) = int n"
proof (induction n rule: str_nat.induct)
  case (1 n)
  show ?case
  proof (cases "n < 10")
    case True
    then show ?thesis
      by (simp add: str_nat.simps [of n] int_of_digits_def digit_val_digit_char)
  next
    case False
    then have "int_of_digits (str_nat n) =
        10 * int_of_digits (str_nat (n div 10)) + int (digit_val (digit_char (n mod 10)))"
      by (simp add: str_nat.simps [of n] int_of_digits_snoc)
    also have "\<dots> = 10 * int (n div 10) + int (n mod 10)"
      using False by (simp add: "1.IH" digit_val_digit_char)
    also have "\<dots> = int n" by presburger
    finally show ?thesis .
  qed
qed

lemma int_of_digits_zeros:
  "int_of_digits (replicate k CHR ''0'' @ ds) = int_of_digits ds"
proof -
  have "foldl (\<lambda>a c. 10 * a + int (digit_val c)) 0 (replicate k CHR ''0'') = 0"
    by (induction k) (simp_all add: digit_val_def)
  then show ?thesis by (simp add: int_of_digits_def)
qed

lemma digits_not_minus: "list_all is_digit ds \<Longrightarrow> ds \<noteq> [] \<Longrightarrow> hd ds \<noteq> CHR ''-''"
  by (cases ds) (auto simp: is_digit_def)

lemma py_int_digits:
  "list_all is_digit ds \<Longrightarrow> ds \<noteq> [] \<Longrightarrow> py_int ds = int_of_digits ds"
  using digits_not_minus [of ds] by (cases ds) (auto simp: py_int_def)

lemma py_int_minus: "py_int (CHR ''-'' # ds) = - int_of_digits ds"
  by (simp add: py_int_def)

lemma zeros_str_nat_digits: "list_all is_digit (replicate k CHR ''0'' @ str_nat n)"
  using str_nat_digits [of n] by (auto simp: is_digit_zero list_all_iff)

lemma zeros_str_nat_not_Nil: "replicate k CHR ''0'' @ str_nat n \<noteq> []"
  by (simp add: str_nat_not_Nil)

lemma py_int_zeros_str_nat: "py_int (replicate k CHR ''0'' @ str_nat n) = int n"
  by (simp only: py_int_digits [OF zeros_str_nat_digits zeros_str_nat_not_Nil]
      int_of_digits_zeros int_of_digits_str_nat)

subsection \<open>A directive with digits\<close>

lemma unit_char_plain:
  "unit_of_char c = Some u \<Longrightarrow> \<not> is_digit c \<and> c \<noteq> CHR ''-'' \<and> c \<noteq> CHR ''%''"
  by (auto simp: unit_of_char_def is_digit_def split: if_splits)

lemma takeWhile_digits:
  "list_all is_digit ds \<Longrightarrow> \<not> is_digit c \<Longrightarrow> takeWhile is_digit (ds @ c # r) = ds"
  by (induction ds) auto

lemma dropWhile_digits:
  "list_all is_digit ds \<Longrightarrow> \<not> is_digit c \<Longrightarrow> dropWhile is_digit (ds @ c # r) = c # r"
  by (induction ds) auto

lemma match_digits_plain:
  assumes "list_all is_digit ds" "ds \<noteq> []" "\<not> is_digit c"
  shows "match_digits (ds @ c # r) = Some (ds, c # r)"
proof -
  from assms obtain d ds' where ds: "ds = d # ds'" by (cases ds) auto
  with digits_not_minus [OF assms(1,2)] have "d \<noteq> CHR ''-''" by simp
  then show ?thesis
    using takeWhile_digits [OF assms(1,3), of r] dropWhile_digits [OF assms(1,3), of r] assms(2)
    unfolding ds by (simp add: match_digits_def)
qed

lemma match_digits_signed:
  assumes "list_all is_digit ds" "ds \<noteq> []" "\<not> is_digit c"
  shows "match_digits (CHR ''-'' # ds @ c # r) = Some (CHR ''-'' # ds, c # r)"
  using takeWhile_digits [OF assms(1,3), of r] dropWhile_digits [OF assms(1,3), of r] assms(2)
  by (simp add: match_digits_def)

lemma rx_match_at_digits:
  assumes "unit_of_char c = Some u" "list_all is_digit ds" "ds \<noteq> []"
  shows "rx_match_at (CHR ''%'' # ds @ c # r) = Some (Spec (Some ds) u, r)"
    and "rx_match_at (CHR ''%'' # CHR ''-'' # ds @ c # r) = Some (Spec (Some (CHR ''-'' # ds)) u, r)"
  using unit_char_plain [OF assms(1)] assms(1)
    match_digits_plain [OF assms(2,3), of c r] match_digits_signed [OF assms(2,3), of c r]
  by (simp_all add: rx_match_at_def match_unit_def)

lemma format_time_directive:
  assumes "rx_match_at fmt = Some (Spec digits u, [])" "fmt \<noteq> []" "stored_width digits u \<noteq> 0"
  shows "format_time t fmt =
     Inr (directive_text (get_units_from_milliseconds t) u (stored_width digits u))"
proof -
  from assms(2) obtain c cs where fmt: "fmt = c # cs" by (cases fmt) auto
  have "rx_sub (replacer (get_units_from_milliseconds t)) fmt =
      Inr (directive_text (get_units_from_milliseconds t) u (stored_width digits u))"
    using assms(1,3) unfolding fmt by (simp add: replacer_def)
  then show ?thesis
    by (simp add: format_time_def format_no_args_no_percent directive_text_no_percent)
qed

lemma directive_text_last:
  "0 < n \<Longrightarrow> directive_text units u (- int n) =
     (let p = rjust (max (int n) (default_digs u)) CHR ''0'' (str_int (unit_value units u))
      in drop (length p - n) p)"
  by (simp add: directive_text_def padded_def slice_from_def slice_index_def Let_def
      nat_diff_distrib')

lemma directive_text_first:
  "0 < n \<Longrightarrow> directive_text units u (int n) =
     take n (rjust (max (int n) (default_digs u)) CHR ''0'' (str_int (unit_value units u)))"
  by (simp add: directive_text_def padded_def slice_to_def slice_index_def)

section \<open>Decomposition of an elapsed time\<close>

text \<open>
  Claim C5. For every non-negative integer \<open>t\<close>, the four units computed from \<open>t\<close>
  milliseconds recombine to \<open>t\<close> through \<open>((H*60+M)*60+S)*1000+m\<close>, with minutes and
  seconds between 0 and 59 and milliseconds between 0 and 999.
\<close>

theorem units_roundtrip:
  assumes "0 \<le> t"
  shows "case get_units_from_milliseconds t of (h, m, s, ms) \<Rightarrow>
           ((h * 60 + m) * 60 + s) * 1000 + ms = t
           \<and> 0 \<le> h \<and> 0 \<le> m \<and> m \<le> 59 \<and> 0 \<le> s \<and> s \<le> 59 \<and> 0 \<le> ms \<and> ms \<le> 999"
proof -
  let ?secs = "t div 1000" and ?mins = "t div 1000 div 60" and ?hours = "t div 1000 div 60 div 60"
  have 1: "?secs * 1000 + t mod 1000 = t" by simp
  have 2: "?mins * 60 + ?secs mod 60 = ?secs" by simp
  have 3: "?hours * 60 + ?mins mod 60 = ?mins" by simp
  have sum: "((?hours * 60 + ?mins mod 60) * 60 + ?secs mod 60) * 1000 + t mod 1000 = t"
    unfolding 3 2 1 ..
  have h: "0 \<le> ?hours"
    using assms by (simp add: pos_imp_zdiv_nonneg_iff)
  have m: "0 \<le> ?mins mod 60 \<and> ?mins mod 60 \<le> 59"
    using pos_mod_sign [of 60 ?mins] pos_mod_bound [of 60 ?mins] by simp
  have s: "0 \<le> ?secs mod 60 \<and> ?secs mod 60 \<le> 59"
    using pos_mod_sign [of 60 ?secs] pos_mod_bound [of 60 ?secs] by simp
  have ms: "0 \<le> t mod 1000 \<and> t mod 1000 \<le> 999"
    using pos_mod_sign [of 1000 t] pos_mod_bound [of 1000 t] by simp
  show ?thesis
    unfolding get_units_from_milliseconds_def Let_def prod.case
    using sum h m s ms by blast
qed

theorem units_roundtrip_witness:
  "(0::int) \<le> 3725007 \<and> get_units_from_milliseconds 3725007 = (1, 2, 5, 7)
   \<and> ((1 * 60 + 2) * 60 + 5) * 1000 + 7 = (3725007::int)"
  using units_roundtrip [of 3725007]
  by (simp add: get_units_from_milliseconds_def)

section \<open>Zero widths\<close>

text \<open>
  Claim C7. For every elapsed time, a pattern in which the scan finds a directive whose
  stored width is 0 (such as \<^verbatim>\<open>%0H\<close>) is not rendered: \<^verbatim>\<open>format_time\<close> raises
  \<^verbatim>\<open>ValueError("width cannot be 0")\<close>.
\<close>

theorem zero_width_rejected:
  assumes "list_ex zero_width (scan fmt)"
  shows "format_time t fmt = Inl (ValueError ''width cannot be 0'')"
  unfolding format_time_def rx_sub_scan
  by (simp add: sub_tokens_zero_width [OF assms])

theorem zero_width_rejected_witness:
  "list_ex zero_width (scan ''%0H'')
   \<and> format_time 0 ''%0H'' = Inl (ValueError ''width cannot be 0'')"
proof -
  have h: "list_ex zero_width (scan ''%0H'')" by code_simp
  show ?thesis using h zero_width_rejected [OF h, of 0] by simp
qed

section \<open>The padding floor\<close>

text \<open>
  Claim C1 says that the value is padded to at least the larger of the stored width and
  the unit's conventional size, 2 for hours, minutes and seconds. The padding width is
  computed as \<^verbatim>\<open>max(abs(dig), default_digs[u])\<close>, and the table holds \<open>- 2\<close> for these
  three units, so for them no floor applies: with the directive \<^verbatim>\<open>%-1H\<close> (stored
  width 1) five hours are padded to \<^verbatim>\<open>5\<close>, one character, and rendered as \<^verbatim>\<open>5\<close>.
  For milliseconds the table holds 3 and the floor applies: \<^verbatim>\<open>%-1m\<close> pads 5 to
  \<^verbatim>\<open>005\<close> and renders \<^verbatim>\<open>0\<close>.
\<close>

theorem pad_floor_missing_for_hours:
  "stored_width (Some ''-1'') Hours = 1
   \<and> get_units_from_milliseconds 18000000 = (5, 0, 0, 0)
   \<and> padded (5, 0, 0, 0) Hours 1 = ''5''
   \<and> format_time 18000000 ''%-1H'' = Inr ''5''
   \<and> padded (0, 0, 0, 5) Millis 1 = ''005''
   \<and> format_time 5 ''%-1m'' = Inr ''0''"
  by code_simp

section \<open>The escape\<close>

text \<open>
  Claim C9. The escape \<^verbatim>\<open>%%\<close> renders to one \<^verbatim>\<open>%\<close>: alone, for every elapsed time,
  and inside a pattern, between a part \<open>p\<close> in which the scan leaves no \<^verbatim>\<open>%\<close> unmatched
  and a part \<open>q\<close>, where the label is the label of \<open>p\<close>, one \<^verbatim>\<open>%\<close>, and the label of \<open>q\<close>.
\<close>

theorem escape_renders_percent:
  "format_time t ''%%'' = Inr ''%''
   \<and> (Lit CHR ''%'' \<notin> set (scan p) \<and> format_time t p = Inr a \<and> format_time t q = Inr b
        \<longrightarrow> format_time t (p @ ''%%'' @ q) = Inr (a @ ''%'' @ b))"
proof (intro conjI impI)
  show "format_time t ''%%'' = Inr ''%''"
    unfolding format_time_def rx_sub_scan scan_escape format_no_args_def
    by (simp add: replacer_def fmt_step_def first_step_def)
next
  let ?repl = "replacer (get_units_from_milliseconds t)"
  assume h: "Lit CHR ''%'' \<notin> set (scan p) \<and> format_time t p = Inr a \<and> format_time t q = Inr b"
  from h obtain x where x: "sub_tokens ?repl (scan p) = Inr x" "fmt_run Text x = Inr a"
    using format_time_Inr by blast
  from h obtain y where y: "sub_tokens ?repl (scan q) = Inr y" "fmt_run Text y = Inr b"
    using format_time_Inr by blast
  have "scan (p @ ''%%'' @ q) = scan p @ Match Percent # scan q"
    using h scan_append [of p] scan_escape by simp
  then have "rx_sub ?repl (p @ ''%%'' @ q) = Inr (x @ ''%%'' @ y)"
    unfolding rx_sub_scan by (simp add: sub_tokens_append x y replacer_def)
  moreover have "fmt_run Text (x @ ''%%'' @ y) = Inr (a @ ''%'' @ b)"
    using fmt_run_append [OF x(2), of "''%%'' @ y"] fmt_run_escape [of y] y(2) by simp
  ultimately show "format_time t (p @ ''%%'' @ q) = Inr (a @ ''%'' @ b)"
    by (simp add: format_time_def format_no_args_def)
qed

theorem escape_renders_percent_witness:
  "Lit CHR ''%'' \<notin> set (scan ''%M:'') \<and> format_time 65000 ''%M:'' = Inr ''01:''
   \<and> format_time 65000 ''%S'' = Inr ''05''
   \<and> format_time 65000 ''%M:%%%S'' = Inr ''01:%05''"
proof -
  have h1: "Lit CHR ''%'' \<notin> set (scan ''%M:'')" by code_simp
  have h2: "format_time 65000 ''%M:'' = Inr ''01:''" by code_simp
  have h3: "format_time 65000 ''%S'' = Inr ''05''" by code_simp
  show ?thesis
    using h1 h2 h3 escape_renders_percent [of 65000 "''%M:''" "''01:''" "''%S''" "''05''"]
    by simp
qed

section \<open>The length of a label\<close>

text \<open>
  Claim C10. The text substituted for a directive with stored width \<open>w \<noteq> 0\<close> has
  exactly \<open>\<bar>w\<bar>\<close> characters, where \<open>w\<close> is the default of the unit (\<open>- 2\<close>, the last two,
  for hours, minutes and seconds; 3, the first three, for milliseconds) when the
  directive gives no digits. Hence two labels rendered from one pattern at non-negative
  elapsed times have the same length.
\<close>

theorem label_length_fixed:
  "(stored_width digits u \<noteq> 0 \<longrightarrow>
      replacer (get_units_from_milliseconds t) (Spec digits u) =
        Inr (directive_text (get_units_from_milliseconds t) u (stored_width digits u))
      \<and> length (directive_text (get_units_from_milliseconds t) u (stored_width digits u)) =
        nat \<bar>stored_width digits u\<bar>)
   \<and> stored_width None Hours = - 2 \<and> stored_width None Minutes = - 2
   \<and> stored_width None Seconds = - 2 \<and> stored_width None Millis = 3
   \<and> (0 \<le> t1 \<and> 0 \<le> t2 \<and> format_time t1 fmt = Inr l1 \<and> format_time t2 fmt = Inr l2
        \<longrightarrow> length l1 = length l2)"
proof (intro conjI impI)
  assume "stored_width digits u \<noteq> 0"
  then show "replacer (get_units_from_milliseconds t) (Spec digits u) =
      Inr (directive_text (get_units_from_milliseconds t) u (stored_width digits u))"
    by (simp add: replacer_def)
next
  assume "stored_width digits u \<noteq> 0"
  then show "length (directive_text (get_units_from_milliseconds t) u (stored_width digits u)) =
      nat \<bar>stored_width digits u\<bar>"
    by (rule length_directive_text)
next
  assume h: "0 \<le> t1 \<and> 0 \<le> t2 \<and> format_time t1 fmt = Inr l1 \<and> format_time t2 fmt = Inr l2"
  from h obtain x1 where x1:
    "sub_tokens (replacer (get_units_from_milliseconds t1)) (scan fmt) = Inr x1"
    "fmt_run Text x1 = Inr l1"
    using format_time_Inr by blast
  from h obtain x2 where x2:
    "sub_tokens (replacer (get_units_from_milliseconds t2)) (scan fmt) = Inr x2"
    "fmt_run Text x2 = Inr l2"
    using format_time_Inr by blast
  from h have "list_all2 sim x1 x2"
    using sub_tokens_sim [OF _ _ x1(1) x2(1)] by simp
  then show "length l1 = length l2"
    using fmt_run_sim [OF _ _ x1(2) x2(2)] by simp
qed (simp_all add: stored_width_def default_digs_def)

theorem label_length_fixed_witness:
  "stored_width (Some ''-2'') Millis \<noteq> 0
   \<and> length (directive_text (get_units_from_milliseconds 7) Millis (stored_width (Some ''-2'') Millis)) = 2
   \<and> (0::int) \<le> 7 \<and> (0::int) \<le> 360000000
   \<and> format_time 7 ''%H:%M:%S.%-2m'' = Inr ''00:00:00.00''
   \<and> format_time 360000000 ''%H:%M:%S.%-2m'' = Inr ''00:00:00.00''
   \<and> length ''00:00:00.00'' = length ''00:00:00.00''"
proof -
  have w: "stored_width (Some ''-2'') Millis = 2" by code_simp
  have a: "format_time 7 ''%H:%M:%S.%-2m'' = Inr ''00:00:00.00''" by code_simp
  have b: "format_time 360000000 ''%H:%M:%S.%-2m'' = Inr ''00:00:00.00''" by code_simp
  show ?thesis
    using w a b
      label_length_fixed [of "Some ''-2''" Millis 7 7 360000000 "''%H:%M:%S.%-2m''"
        "''00:00:00.00''" "''00:00:00.00''"]
    by simp
qed

section \<open>The whole seconds of the schedule\<close>

text \<open>
  Claim C4. For every duration \<open>d \<ge> 0\<close> and every positive frame rate, the schedule
  starts with the whole seconds: each second \<open>i\<close> below \<open>\<lfloor>d\<rfloor>\<close>, in order, gives exactly
  \<open>fps\<close> elapsed times \<open>i * 1000 + j * (1000 div fps)\<close> for \<open>j = 0, \<dots>, fps - 1\<close>, in order; the
  offsets start at 0 again in every second. The times of the last, partial second
  follow them in the schedule (there is no schedule when the frame rate is too large
  for a float: the first statement of \<^verbatim>\<open>generate_frames\<close> then raises).
\<close>

theorem whole_seconds_schedule:
  assumes "0 \<le> d" "0 < fps"
  shows "whole_seconds d fps =
           Inr (concat (map (\<lambda>i. map (\<lambda>j. int i * 1000 + int j * (1000 div fps)) [0..<nat fps])
                          [0..<nat \<lfloor>d\<rfloor>]))
         \<and> (\<exists>part. last_second d fps = Inr part
               \<and> frame_times (Finite d) fps =
                  (if too_large_for_float fps
                   then Inl (OverflowError ''int too large to convert to float'')
                   else Inr (concat (map (\<lambda>i. map (\<lambda>j. int i * 1000 + int j * (1000 div fps))
                                                [0..<nat fps])
                                       [0..<nat \<lfloor>d\<rfloor>]) @ part)))"
  unfolding frame_times_Finite whole_seconds_offsets [OF assms] last_second_offsets [OF assms]
  by simp

theorem whole_seconds_schedule_witness:
  "(0::rat) \<le> 5 / 2 \<and> (0::int) < 4 \<and> \<not> too_large_for_float 4
   \<and> whole_seconds (5 / 2) 4 = Inr [0, 250, 500, 750, 1000, 1250, 1500, 1750]
   \<and> frame_times (Finite (5 / 2)) 4 =
         Inr [0, 250, 500, 750, 1000, 1250, 1500, 1750, 3000, 3250]"
proof -
  have h: "(0::rat) \<le> 5 / 2" "(0::int) < 4" by simp_all
  have small: "\<not> too_large_for_float 4" by (rule small_int_has_float) simp
  have fl1: "fl (5 / 2 + 1) = 7 / 2" using fl_seven_halves by simp
  have fl2: "fl ((5 / 2 - of_int \<lfloor>5 / 2 :: rat\<rfloor>) * 1000) = 500"
    using fl_500 by (simp add: floor_rat_numeral_div)
  have nats: "[0..<nat 4] = [0, 1, 2, 3]" "[0..<nat \<lfloor>5 / 2 :: rat\<rfloor>] = [0, 1]"
    by (simp_all add: floor_rat_numeral_div upt_conv_Cons)
  have part: "last_second (5 / 2) 4 = Inr [3000, 3250]"
    unfolding last_second_offsets [OF h] fl1 fl2 nats
    by (simp add: float_int_def floor_rat_numeral_div)
  show ?thesis
    using whole_seconds_schedule [OF h] part small unfolding nats by simp
qed

section \<open>The last second of the schedule\<close>

text \<open>
  Claim C2 says that the last, partial second gives the offsets below \<open>frac * 1000\<close>, at
  the elapsed times \<open>(\<lfloor>d\<rfloor> + 1) * 1000 + offset\<close>. The code computes the bound
  \<^verbatim>\<open>duration % 1 * 1000\<close> and the second \<^verbatim>\<open>int(duration + 1)\<close> in floating point. For the
  largest float below 1 the sum \<open>d + 1\<close> is rounded to 2, and the frame is put at 2000,
  not at 1000. For the float nearest to one tenth the product \<open>frac * 1000\<close> is a little
  more than 100 and is rounded to 100, so at 10 frames per second the offset 100 is
  below \<open>frac * 1000\<close> and yet gives no frame.
\<close>

theorem last_second_rounding_counterexample:
  "(0::rat) < 9007199254740991 / 9007199254740992
              - of_int \<lfloor>9007199254740991 / 9007199254740992 :: rat\<rfloor>
   \<and> (0::rat) < (9007199254740991 / 9007199254740992
              - of_int \<lfloor>9007199254740991 / 9007199254740992 :: rat\<rfloor>) * 1000
   \<and> (\<lfloor>9007199254740991 / 9007199254740992 :: rat\<rfloor> + 1) * 1000 + 0 = 1000
   \<and> last_second (9007199254740991 / 9007199254740992) 1 = Inr [2000]
   \<and> (100::rat) < (3602879701896397 / 36028797018963968
              - of_int \<lfloor>3602879701896397 / 36028797018963968 :: rat\<rfloor>) * 1000
   \<and> last_second (3602879701896397 / 36028797018963968) 10 = Inr [1000]"
proof -
  let ?d = "9007199254740991 / 9007199254740992 :: rat"
  let ?t = "3602879701896397 / 36028797018963968 :: rat"
  have fd: "\<lfloor>?d\<rfloor> = 0" and ft: "\<lfloor>?t\<rfloor> = 0"
    by (simp_all add: floor_rat_numeral_div)
  have sum_d: "fl (?d + 1) = 2"
    by (subst fl_eq [of 0]) (simp_all add: round_half_even_def Let_def floor_rat_numeral_div)
  have prod_d: "fl ((?d - of_int \<lfloor>?d\<rfloor>) * 1000) = 8796093022207999 / 8796093022208"
    unfolding fd
    by (subst fl_eq [of 9]) (simp_all add: round_half_even_def Let_def floor_rat_numeral_div)
  have sum_t: "fl (?t + 1) = 2476979795053773 / 2251799813685248"
    by (subst fl_eq [of 0]) (simp_all add: round_half_even_def Let_def floor_rat_numeral_div)
  have prod_t: "fl ((?t - of_int \<lfloor>?t\<rfloor>) * 1000) = 100"
    unfolding ft
    by (subst fl_eq [of 6]) (simp_all add: round_half_even_def Let_def floor_rat_numeral_div)
  have mc: "millis_counts 1 = Inr [0]"
    "millis_counts 10 = Inr [0, 100, 200, 300, 400, 500, 600, 700, 800, 900]"
    by code_simp+
  have int_d: "float_int (fl (?d + 1)) = 2"
    unfolding sum_d by (simp add: float_int_def)
  have int_t: "float_int (fl (?t + 1)) = 1"
    unfolding sum_t by (simp add: float_int_def floor_rat_numeral_div)
  have mod_d: "float_mod_one ?d = ?d - of_int \<lfloor>?d\<rfloor>"
    by (rule float_mod_one_nonneg) simp
  have mod_t: "float_mod_one ?t = ?t - of_int \<lfloor>?t\<rfloor>"
    by (rule float_mod_one_nonneg) simp
  have a: "last_second ?d 1 = Inr [2000]"
    using last_second_eval [OF mc(1) int_d prod_d [folded mod_d]] by simp
  have b: "last_second ?t 10 = Inr [1000]"
    using last_second_eval [OF mc(2) int_t prod_t [folded mod_t]] by simp
  show ?thesis
    unfolding a b by (simp add: floor_rat_numeral_div)
qed

text \<open>
  Claim C2, amended. For every duration \<open>d \<ge> 0\<close> and every positive frame rate, the last
  second gives exactly the offsets \<open>j * (1000 div fps)\<close>, \<open>j < fps\<close>, that are below the
  rounded product \<open>fl (frac * 1000)\<close>, each at the elapsed time
  \<open>int(fl (d + 1)) * 1000 + offset\<close>; these times end the schedule (which there is unless
  the frame rate is too large for a float). For \<open>d + 1\<close> below
  \<open>2 ^ 53\<close> the second \<open>int(fl (d + 1))\<close> is \<open>\<lfloor>d\<rfloor> + 1\<close>, unless the sum is rounded up to
  \<open>\<lfloor>d\<rfloor> + 2\<close>.
\<close>

theorem last_second_schedule:
  assumes "0 \<le> d" "0 < fps"
  shows "last_second d fps =
           Inr (map (\<lambda>off. float_int (fl (d + 1)) * 1000 + off)
                  (filter (\<lambda>off. of_int off < fl ((d - of_int \<lfloor>d\<rfloor>) * 1000))
                     (map (\<lambda>j. int j * (1000 div fps)) [0..<nat fps])))
         \<and> (\<exists>whole. whole_seconds d fps = Inr whole
               \<and> frame_times (Finite d) fps =
                  (if too_large_for_float fps
                   then Inl (OverflowError ''int too large to convert to float'')
                   else Inr (whole @ map (\<lambda>off. float_int (fl (d + 1)) * 1000 + off)
                     (filter (\<lambda>off. of_int off < fl ((d - of_int \<lfloor>d\<rfloor>) * 1000))
                        (map (\<lambda>j. int j * (1000 div fps)) [0..<nat fps])))))
         \<and> (d + 1 < 2 ^ 53 \<and> fl (d + 1) < of_int \<lfloor>d\<rfloor> + 2
               \<longrightarrow> float_int (fl (d + 1)) = \<lfloor>d\<rfloor> + 1)"
proof (intro conjI impI)
  show "last_second d fps =
           Inr (map (\<lambda>off. float_int (fl (d + 1)) * 1000 + off)
                  (filter (\<lambda>off. of_int off < fl ((d - of_int \<lfloor>d\<rfloor>) * 1000))
                     (map (\<lambda>j. int j * (1000 div fps)) [0..<nat fps])))"
    by (rule last_second_offsets [OF assms])
next
  show "\<exists>whole. whole_seconds d fps = Inr whole
               \<and> frame_times (Finite d) fps =
                  (if too_large_for_float fps
                   then Inl (OverflowError ''int too large to convert to float'')
                   else Inr (whole @ map (\<lambda>off. float_int (fl (d + 1)) * 1000 + off)
                     (filter (\<lambda>off. of_int off < fl ((d - of_int \<lfloor>d\<rfloor>) * 1000))
                        (map (\<lambda>j. int j * (1000 div fps)) [0..<nat fps]))))"
    unfolding frame_times_Finite whole_seconds_offsets [OF assms] last_second_offsets [OF assms]
    by simp
next
  assume "d + 1 < 2 ^ 53 \<and> fl (d + 1) < of_int \<lfloor>d\<rfloor> + 2"
  then show "float_int (fl (d + 1)) = \<lfloor>d\<rfloor> + 1"
    using assms(1) by (intro float_int_next_second) simp_all
qed

theorem last_second_schedule_witness:
  "(0::rat) \<le> 5 / 2 \<and> (0::int) < 4 \<and> (5 / 2 + 1 :: rat) < 2 ^ 53
   \<and> fl (5 / 2 + 1) < of_int \<lfloor>5 / 2 :: rat\<rfloor> + 2
   \<and> last_second (5 / 2) 4 = Inr [3000, 3250]
   \<and> float_int (fl (5 / 2 + 1)) = \<lfloor>5 / 2 :: rat\<rfloor> + 1"
proof -
  have h: "(0::rat) \<le> 5 / 2" "(0::int) < 4" by simp_all
  have fl1: "fl (5 / 2 + 1) = 7 / 2" using fl_seven_halves by simp
  have fl2: "fl ((5 / 2 - of_int \<lfloor>5 / 2 :: rat\<rfloor>) * 1000) = 500"
    using fl_500 by (simp add: floor_rat_numeral_div)
  have nats: "[0..<nat 4] = [0, 1, 2, 3]"
    by (simp add: upt_conv_Cons)
  show ?thesis
    using last_second_schedule [OF h] unfolding fl1 fl2 nats
    by (simp add: float_int_def floor_rat_numeral_div)
qed

section \<open>Durations and frame rates that the specification excludes\<close>

text \<open>
  Claim C6 says that a frame rate that is not positive and a negative duration are
  rejected before the schedule is generated. The code checks neither. With the
  duration \<open>- 1/2\<close> and 4 frames per second it schedules the times 0 and 250 and renders
  two labels; with the duration \<open>5/2\<close> and the frame rate \<open>- 1\<close> it schedules 0, 1000 and
  3000.
\<close>

theorem invalid_input_counterexample:
  "frame_times (Finite (- 1 / 2)) 4 = Inr [0, 250]
   \<and> generate_frames (Finite (- 1 / 2)) 4 ''%M:%S.%-2m'' = Inr [''00:00.00'', ''00:00.25'']
   \<and> frame_times (Finite (5 / 2)) (- 1) = Inr [0, 1000, 3000]"
proof -
  have mc: "millis_counts 4 = Inr [0, 250, 500, 750]" "millis_counts (- 1) = Inr [0]"
    by code_simp+
  have small: "\<not> too_large_for_float 4" "\<not> too_large_for_float (- 1)"
    by (rule small_int_has_float, simp)+
  have int_a: "float_int (- 1 / 2) = 0"
    by (simp add: float_int_def floor_rat_one_div)
  have mod_a: "float_mod_one (- 1 / 2) = 1 / 2"
    unfolding float_mod_one_def int_a Let_def using fl_half by simp
  have bound_a: "fl (float_mod_one (- 1 / 2) * 1000) = 500"
    unfolding mod_a using fl_500 by simp
  have next_a: "float_int (fl (- 1 / 2 + 1)) = 0"
    by (simp add: fl_half float_int_def floor_rat_one_div)
  have a: "frame_times (Finite (- 1 / 2)) 4 = Inr [0, 250]"
    unfolding frame_times_Finite whole_seconds_eval [OF mc(1) int_a]
      last_second_eval [OF mc(1) next_a bound_a]
    using small by simp
  have int_b: "float_int (5 / 2) = 2"
    by (simp add: float_int_def floor_rat_numeral_div)
  have mod_b: "float_mod_one (5 / 2) = 1 / 2"
    unfolding float_mod_one_def int_b Let_def by simp
  have bound_b: "fl (float_mod_one (5 / 2) * 1000) = 500"
    unfolding mod_b using fl_500 by simp
  have next_b: "float_int (fl (5 / 2 + 1)) = 3"
    by (simp add: fl_seven_halves float_int_def floor_rat_numeral_div)
  have b: "frame_times (Finite (5 / 2)) (- 1) = Inr [0, 1000, 3000]"
    unfolding frame_times_Finite whole_seconds_eval [OF mc(2) int_b]
      last_second_eval [OF mc(2) next_b bound_b]
    using small by (simp add: upt_conv_Cons)
  have l: "format_all ''%M:%S.%-2m'' [0, 250] = Inr [''00:00.00'', ''00:00.25'']"
    by code_simp
  show ?thesis
    using a b l by (simp add: generate_frames_frame_times)
qed

text \<open>
  Claim C6, amended. A frame rate of 0 is rejected, for every duration and every pattern,
  though by no check before the schedule generation: \<^verbatim>\<open>generate_frames\<close> raises the
  \<^verbatim>\<open>ZeroDivisionError\<close> of the offsets generator when the first loop that runs asks it
  for an element, before any label is formatted; for an infinite duration and for one
  that is not a number, the conversion of the duration to an int has raised before
  that.
\<close>

theorem frame_rate_zero_rejected:
  "generate_frames (Finite d) 0 fmt = Inl ZeroDivisionError
   \<and> generate_frames PosInf 0 fmt = Inl (OverflowError ''cannot convert float infinity to integer'')
   \<and> generate_frames NegInf 0 fmt = Inl (OverflowError ''cannot convert float infinity to integer'')
   \<and> generate_frames NaN 0 fmt = Inl (ValueError ''cannot convert float NaN to integer'')"
  by (simp add: generate_frames_def int_to_float_def too_large_for_float_def whole_seconds_def
      last_second_def millis_counts_def)

section \<open>Percent signs outside the pattern\<close>

text \<open>
  Claim C8. For every elapsed time, a pattern in which the scan leaves a \<^verbatim>\<open>%\<close> that
  belongs to no escape and no directive is not rendered: \<^verbatim>\<open>format_time\<close> raises an
  exception, in the substitution or in the final formatting step, and returns no label.
\<close>

theorem dangling_percent_rejected:
  assumes "Lit CHR ''%'' \<in> set (scan fmt)"
  shows "\<exists>e. format_time t fmt = Inl e"
proof (cases "rx_sub (replacer (get_units_from_milliseconds t)) fmt")
  case (Inl e)
  then show ?thesis by (simp add: format_time_def)
next
  case (Inr x)
  from stray_percent_fails [OF assms Inr] obtain e where "fmt_run Text x = Inl e" ..
  with Inr show ?thesis by (simp add: format_time_def format_no_args_def)
qed

theorem dangling_percent_rejected_witness:
  "Lit CHR ''%'' \<in> set (scan ''%5%'')
   \<and> format_time 0 ''%5%'' = Inl (TypeError ''not enough arguments for format string'')
   \<and> (\<exists>e. format_time 0 ''%5%'' = Inl e)"
proof -
  have h: "Lit CHR ''%'' \<in> set (scan ''%5%'')" by code_simp
  have v: "format_time 0 ''%5%'' = Inl (TypeError ''not enough arguments for format string'')"
    by code_simp
  show ?thesis using h v dangling_percent_rejected [OF h, of 0] by simp
qed

section \<open>Explicit widths\<close>

text \<open>
  Claim C3. The stored width of a directive with an explicit digit string is the negation
  of the parsed integer: the digits of \<open>n\<close>, with any number of zeros before them, give the
  stored width \<open>- n\<close>, and with a minus sign before them the stored width \<open>n\<close>. So for every
  unit, every \<open>n > 0\<close> and every elapsed time the directive written with the digits of \<open>n\<close>
  keeps the last \<open>n\<close> characters of the padded value and the one written with a minus
  sign keeps the first \<open>n\<close>: \<^verbatim>\<open>%2m\<close> keeps the last two characters of the milliseconds
  padded to three digits and \<^verbatim>\<open>%-2m\<close> the first two; at 999 milliseconds both give
  \<^verbatim>\<open>99\<close>.
\<close>

theorem explicit_width_negated:
  "stored_width (Some ds) u' = - py_int ds
   \<and> stored_width (Some (replicate k CHR ''0'' @ str_nat n)) u' = - int n
   \<and> stored_width (Some (CHR ''-'' # replicate k CHR ''0'' @ str_nat n)) u' = int n
   \<and> (unit_of_char c = Some u \<and> 0 < n \<longrightarrow>
        format_time t (CHR ''%'' # replicate k CHR ''0'' @ str_nat n @ [c]) =
          Inr (let p = rjust (max (int n) (default_digs u)) CHR ''0''
                         (str_int (unit_value (get_units_from_milliseconds t) u))
               in drop (length p - n) p)
        \<and> format_time t (CHR ''%'' # CHR ''-'' # replicate k CHR ''0'' @ str_nat n @ [c]) =
          Inr (take n (rjust (max (int n) (default_digs u)) CHR ''0''
                         (str_int (unit_value (get_units_from_milliseconds t) u)))))
   \<and> format_time t ''%2m'' =
       Inr (let p = rjust 3 CHR ''0'' (str_int (t mod 1000)) in drop (length p - 2) p)
   \<and> format_time t ''%-2m'' = Inr (take 2 (rjust 3 CHR ''0'' (str_int (t mod 1000))))
   \<and> format_time 999 ''%2m'' = Inr ''99''
   \<and> format_time 999 ''%-2m'' = Inr ''99''"
proof -
  let ?ds = "replicate k CHR ''0'' @ str_nat n"
  let ?units = "get_units_from_milliseconds t"
  have a: "stored_width (Some ds) u' = - py_int ds" for u'
    by (simp add: stored_width_def)
  have w1: "stored_width (Some ?ds) u' = - int n" for u'
    by (simp add: stored_width_def py_int_zeros_str_nat)
  have w2: "stored_width (Some (CHR ''-'' # ?ds)) u' = int n" for u'
    by (simp add: stored_width_def py_int_minus int_of_digits_zeros int_of_digits_str_nat)
  have gen: "format_time t (CHR ''%'' # replicate k CHR ''0'' @ str_nat n @ [c]) =
          Inr (let p = rjust (max (int n) (default_digs u)) CHR ''0''
                         (str_int (unit_value ?units u))
               in drop (length p - n) p)
        \<and> format_time t (CHR ''%'' # CHR ''-'' # replicate k CHR ''0'' @ str_nat n @ [c]) =
          Inr (take n (rjust (max (int n) (default_digs u)) CHR ''0''
                         (str_int (unit_value ?units u))))"
    if h: "unit_of_char c = Some u \<and> 0 < n"
  proof -
    from h have u: "unit_of_char c = Some u" and n: "0 < n" by simp_all
    note m = rx_match_at_digits [OF u zeros_str_nat_digits zeros_str_nat_not_Nil, of k n "[]"]
    have m1: "rx_match_at (CHR ''%'' # replicate k CHR ''0'' @ str_nat n @ [c]) =
        Some (Spec (Some ?ds) u, [])"
      using m(1) by simp
    have m2: "rx_match_at (CHR ''%'' # CHR ''-'' # replicate k CHR ''0'' @ str_nat n @ [c]) =
        Some (Spec (Some (CHR ''-'' # ?ds)) u, [])"
      using m(2) by simp
    have "format_time t (CHR ''%'' # replicate k CHR ''0'' @ str_nat n @ [c]) =
        Inr (directive_text ?units u (- int n))"
      using format_time_directive [OF m1, of t] n by (simp add: w1)
    moreover have "format_time t (CHR ''%'' # CHR ''-'' # replicate k CHR ''0'' @ str_nat n @ [c]) =
        Inr (directive_text ?units u (int n))"
      using format_time_directive [OF m2, of t] n by (simp add: w2)
    ultimately show ?thesis
      by (simp only: directive_text_last [OF n] directive_text_first [OF n])
  qed
  have b: "format_time t ''%2m'' =
       Inr (let p = rjust 3 CHR ''0'' (str_int (t mod 1000)) in drop (length p - 2) p)"
    unfolding format_time_2m directive_text_def padded_def unit_value_millis
    by (simp add: slice_from_def slice_index_def default_digs_def Let_def nat_diff_distrib')
  have c: "format_time t ''%-2m'' = Inr (take 2 (rjust 3 CHR ''0'' (str_int (t mod 1000))))"
    unfolding format_time_neg2m directive_text_def padded_def unit_value_millis
    by (simp add: slice_to_def slice_index_def default_digs_def)
  have d: "format_time 999 ''%2m'' = Inr ''99''" by code_simp
  have e: "format_time 999 ''%-2m'' = Inr ''99''" by code_simp
  from a w1 w2 gen b c d e show ?thesis by blast
qed

theorem explicit_width_negated_witness:
  "unit_of_char CHR ''S'' = Some Seconds \<and> (0::nat) < 12
   \<and> stored_width (Some ''012'') Seconds = - 12
   \<and> stored_width (Some ''-012'') Seconds = 12
   \<and> format_time 754000 ''%012S'' = Inr ''000000000034''
   \<and> format_time 754000 ''%-012S'' = Inr ''000000000034''"
proof -
  have h: "unit_of_char CHR ''S'' = Some Seconds \<and> (0::nat) < 12" by code_simp
  have s: "replicate 1 CHR ''0'' @ str_nat 12 = ''012''" by code_simp
  have p: "rjust (max (int 12) (default_digs Seconds)) CHR ''0''
             (str_int (unit_value (get_units_from_milliseconds 754000) Seconds)) =
           ''000000000034''"
    by code_simp
  note inst = explicit_width_negated [of "[]" Seconds 1 12 "CHR ''S''" Seconds 754000]
  have w: "stored_width (Some ''012'') Seconds = - 12"
    "stored_width (Some ''-012'') Seconds = 12"
    using inst unfolding s by simp_all
  have f: "format_time 754000 ''%012S'' = Inr ''000000000034''"
    "format_time 754000 ''%-012S'' = Inr ''000000000034''"
    using inst h unfolding p using s by simp_all
  from h w f show ?thesis by blast
qed

end
